theory Spec2Isabelle
  imports Complex_Main "HOL-Library.AList" "HOL-Library.Char_ord" "HOL-Library.List_Lexorder"
begin

section \<open>Strings and the path functions of the Python library\<close>

text \<open>
  The program \<^verbatim>\<open>program3.py\<close> is modelled on a POSIX host: \<^verbatim>\<open>os.path\<close> is
  \<^verbatim>\<open>posixpath\<close>, the separator is \<^verbatim>\<open>/\<close>. Python strings are HOL strings.
\<close>

definition startswith :: "string \<Rightarrow> string \<Rightarrow> bool" where
  "startswith s p = (take (length p) s = p)"

definition endswith :: "string \<Rightarrow> string \<Rightarrow> bool" where
  "endswith s p = (drop (length s - length p) s = p \<and> length p \<le> length s)"

text \<open>\<^verbatim>\<open>s.replace("\\", "/")\<close>: every backslash (code 0x5C) becomes a slash.\<close>

definition replace_backslash :: "string \<Rightarrow> string" where
  "replace_backslash s = map (\<lambda>c. if c = CHR 0x5C then CHR ''/'' else c) s"

text \<open>\<^verbatim>\<open>s.split("::")\<close>, scanning from the left; the first argument is the piece read so far.\<close>

fun split_dcolon :: "string \<Rightarrow> string \<Rightarrow> string list" where
  "split_dcolon acc [] = [acc]"
| "split_dcolon acc [c] = [acc @ [c]]"
| "split_dcolon acc (c # d # cs) =
     (if c = CHR '':'' \<and> d = CHR '':'' then acc # split_dcolon [] cs
      else split_dcolon (acc @ [c]) (d # cs))"

text \<open>\<^verbatim>\<open>s.split("/")\<close> and \<^verbatim>\<open>"/".join(xs)\<close>.\<close>

fun split_slash :: "string \<Rightarrow> string \<Rightarrow> string list" where
  "split_slash acc [] = [acc]"
| "split_slash acc (c # cs) =
     (if c = CHR ''/'' then acc # split_slash [] cs else split_slash (acc @ [c]) cs)"

fun sep_join :: "string list \<Rightarrow> string" where
  "sep_join [] = []"
| "sep_join [x] = x"
| "sep_join (x # y # zs) = x @ ''/'' @ sep_join (y # zs)"

text \<open>\<^verbatim>\<open>posixpath.join(a, b)\<close> for two arguments.\<close>

definition os_path_join :: "string \<Rightarrow> string \<Rightarrow> string" where
  "os_path_join a b =
     (if startswith b ''/'' then b
      else if a = [] \<or> endswith a ''/'' then a @ b
      else a @ ''/'' @ b)"

text \<open>
  \<^verbatim>\<open>posixpath.dirname(p)\<close>: the part up to and including the last slash, with its
  trailing slashes removed unless it consists of slashes only.
\<close>

definition rstrip_slash :: "string \<Rightarrow> string" where
  "rstrip_slash s = rev (dropWhile (\<lambda>c. c = CHR ''/'') (rev s))"

definition os_path_dirname :: "string \<Rightarrow> string" where
  "os_path_dirname p =
     (let head = rev (dropWhile (\<lambda>c. c \<noteq> CHR ''/'') (rev p))
      in if head \<noteq> [] \<and> head \<noteq> replicate (length head) (CHR ''/'') then rstrip_slash head
         else head)"

text \<open>
  \<^verbatim>\<open>posixpath.normpath\<close>: empty and \<^verbatim>\<open>.\<close> components are dropped, \<^verbatim>\<open>..\<close> removes the
  component before it where there is one to remove; one or two leading slashes are
  kept, three or more become one.
\<close>

definition normpath_step :: "bool \<Rightarrow> string list \<Rightarrow> string \<Rightarrow> string list" where
  "normpath_step initial_slashes new_comps c =
     (if c = [] \<or> c = ''.'' then new_comps
      else if c \<noteq> ''..'' \<or> (\<not> initial_slashes \<and> new_comps = [])
                \<or> (new_comps \<noteq> [] \<and> last new_comps = ''..'')
        then new_comps @ [c]
      else if new_comps \<noteq> [] then butlast new_comps
      else new_comps)"

definition normpath :: "string \<Rightarrow> string" where
  "normpath path =
     (if path = [] then ''.''
      else
        let initial_slashes =
              (if startswith path ''/''
               then (if startswith path ''//'' \<and> \<not> startswith path ''///'' then 2 else 1)
               else (0::nat));
            comps = foldl (normpath_step (initial_slashes \<noteq> 0)) [] (split_slash [] path);
            path' = replicate initial_slashes (CHR ''/'') @ sep_join comps
        in if path' = [] then ''.'' else path')"

text \<open>\<^verbatim>\<open>posixpath.abspath\<close>, with the working directory \<^verbatim>\<open>os.getcwd()\<close> as a parameter.\<close>

definition abspath :: "string \<Rightarrow> string \<Rightarrow> string" where
  "abspath cwd path =
     normpath (if startswith path ''/'' then path else os_path_join cwd path)"

text \<open>Python's exceptions, as far as the program can meet them.\<close>

datatype exn =
    ClientError | EndpointConnectionError | ParamValidationError | S3UploadFailedError
  | OSError | ValueError | IndexError | TypeError

text \<open>
  \<^verbatim>\<open>posixpath.relpath(path, start)\<close>: both paths are made absolute and split into their
  non-empty components; the result climbs from \<^verbatim>\<open>start\<close> to the longest common prefix and
  descends to \<^verbatim>\<open>path\<close>. An empty \<^verbatim>\<open>path\<close> raises \<^verbatim>\<open>ValueError\<close>.
\<close>

fun commonprefix :: "'a list \<Rightarrow> 'a list \<Rightarrow> 'a list" where
  "commonprefix (x # xs) (y # ys) = (if x = y then x # commonprefix xs ys else [])"
| "commonprefix xs ys = []"

definition abs_comps :: "string \<Rightarrow> string \<Rightarrow> string list" where
  "abs_comps cwd p = filter (\<lambda>x. x \<noteq> []) (split_slash [] (abspath cwd p))"

definition os_path_relpath :: "string \<Rightarrow> string \<Rightarrow> string \<Rightarrow> exn + string" where
  "os_path_relpath cwd path start =
     (if path = [] then Inl ValueError
      else
        let start_list = abs_comps cwd start;
            path_list = abs_comps cwd path;
            i = length (commonprefix start_list path_list);
            rel_list = replicate (length start_list - i) ''..'' @ drop i path_list
        in if rel_list = [] then Inr ''.'' else Inr (sep_join rel_list))"

section \<open>The local file system and the object store\<close>

text \<open>
  Modification times are Python floats read with \<^verbatim>\<open>timestamp()\<close> and \<^verbatim>\<open>getmtime\<close>;
  the program only compares them, so they are modelled as real numbers.
\<close>

type_synonym timestamp = real

text \<open>
  The local file system is a tree below \<^verbatim>\<open>/\<close>. A directory lists its entries in the
  order in which \<^verbatim>\<open>os.scandir\<close> reports them. \<open>NoAccess\<close> is a directory on which the
  user has no permission: it exists, it cannot be listed, and nothing below it can be
  reached. Every node carries its modification time. There are no symbolic links.
\<close>

datatype node = File timestamp | Dir timestamp "(string \<times> node) list" | NoAccess timestamp

text \<open>What the program prints, with the text of each message.\<close>

datatype message =
    BadArgumentCount
  | BackingUp
  | Restoring
  | FatalError
  | NoValidOperation
  | CouldNotFindBucket string
  | BucketNameTaken
  | FoundDirectory string
  | Uploading string
  | Uploaded string
  | UpToDate string
  | BackupNotFound string
  | InvalidBucket string
  | RestoreCompleted string string
  | RestoreNotFound string string

fun render :: "message \<Rightarrow> string" where
  "render BadArgumentCount = ''Please provide correct number of arguments''"
| "render BackingUp = ''backing up...''"
| "render Restoring = ''restoring...''"
| "render FatalError = ''FATAL ERROR: PLEASE ENTER VALID ARGUMENTS''"
| "render NoValidOperation = ''No valid operation was chosen''"
| "render (CouldNotFindBucket bucket_name) =
     ''Could not find bucket: '' @ bucket_name @ '' ->Creating specified bucket...''"
| "render BucketNameTaken = ''Bucket name is taken or invalid, try a different bucket name''"
| "render (FoundDirectory dir_name) = ''Found directory: '' @ dir_name"
| "render (Uploading file_name) = [CHR 0x09] @ ''Uploading: '' @ file_name"
| "render (Uploaded file_name) = ''---> Uploaded: '' @ file_name @ '' successfully''"
| "render (UpToDate file_name) =
     ''---> '' @ file_name @ '' is up to date, no new upload is made for this file''"
| "render (BackupNotFound root_dir) =
     ''Directory or file: '' @ root_dir @ '' does not exist for back-up''"
| "render (InvalidBucket bucket_name) = ''Invalid bucket: '' @ bucket_name @ '' does not exist''"
| "render (RestoreCompleted bucket_name root_dir) =
     ''Restoring files from bucket: '' @ bucket_name @ '' into local directory: '' @ root_dir
       @ '' completed''"
| "render (RestoreNotFound bucket_dir bucket_name) =
     ''Directory: '' @ bucket_dir @ '' in bucket: '' @ bucket_name @ '' does not exist''"

text \<open>
  The effects of a run, in the order in which they happen: what is printed, the client
  and session objects created, and every call that changes the store or the file system.
  A transfer that raises is recorded as failed.
\<close>

datatype event =
    Print message
  | NewResource
  | NewSession
  | CreateBucket string
  | CreateBucketFailed string
  | UploadFile string string string
  | UploadFailed string string string
  | MakeDirs string
  | DownloadFile string string string
  | DownloadFailed string string string

text \<open>
  The world the program runs in. A bucket maps keys to last-modified times. \<open>store_clock\<close> is the last-modified time the store gives to an upload of a key,
  \<open>local_clock\<close> the modification time the host gives to what it creates. The
  \<open>_fails\<close> fields say which requests fail: \<open>head_fails\<close> gives the exception that the
  metadata request for a key raises, \<^verbatim>\<open>ClientError\<close> for an error answer of the store and
  another exception when the store is not reached; \<open>create_fails\<close> gives the exception
  that the creation of a bucket raises; the others say which transfers fail.
\<close>

record world =
  cwd :: string
  fs_root :: node
  local_clock :: timestamp
  buckets :: "(string \<times> (string \<times> timestamp) list) list"
  store_clock :: "string \<Rightarrow> timestamp"
  create_fails :: "string \<Rightarrow> exn option"
  head_fails :: "string \<Rightarrow> exn option"
  upload_fails :: "string \<Rightarrow> bool"
  download_fails :: "string \<Rightarrow> bool"
  trace :: "event list"

definition emit :: "event \<Rightarrow> world \<Rightarrow> world" where
  "emit e w = w\<lparr>trace := trace w @ [e]\<rparr>"

subsection \<open>File system calls\<close>

fun is_dir :: "node \<Rightarrow> bool" where
  "is_dir (Dir t es) = True"
| "is_dir (NoAccess t) = True"
| "is_dir (File t) = False"

text \<open>The node reached from a node by a list of entry names.\<close>

fun lookup_node :: "node \<Rightarrow> string list \<Rightarrow> node option" where
  "lookup_node n [] = Some n"
| "lookup_node (Dir t es) (c # cs) =
     (case map_of es c of None \<Rightarrow> None | Some n \<Rightarrow> lookup_node n cs)"
| "lookup_node (File t) (c # cs) = None"
| "lookup_node (NoAccess t) (c # cs) = None"

text \<open>At the place \<open>cur\<close> below the root there is a directory; one that can be searched.\<close>

definition dir_at :: "node \<Rightarrow> string list \<Rightarrow> bool" where
  "dir_at tree cur = (case lookup_node tree cur of Some n \<Rightarrow> is_dir n | None \<Rightarrow> False)"

definition open_at :: "node \<Rightarrow> string list \<Rightarrow> bool" where
  "open_at tree cur = (case lookup_node tree cur of Some (Dir t es) \<Rightarrow> True | _ \<Rightarrow> False)"

text \<open>
  The host resolves a path component by component, from the root for an absolute path
  and from the working directory otherwise: an empty component (a doubled or trailing
  slash) asks for a directory; \<^verbatim>\<open>.\<close>, \<^verbatim>\<open>..\<close> and a name ask for a directory that can be
  searched; \<^verbatim>\<open>..\<close> goes to the directory above, a name to the entry of that name. The
  result is the place reached, as the list of names from the root.
\<close>

definition path_steps :: "string \<Rightarrow> string \<Rightarrow> string list" where
  "path_steps cwd_now p =
     (if startswith p ''/'' then split_slash [] p
      else split_slash [] cwd_now @ split_slash [] p)"

fun resolve :: "node \<Rightarrow> string list \<Rightarrow> string list \<Rightarrow> string list option" where
  "resolve tree cur [] = Some cur"
| "resolve tree cur (c # cs) =
     (if c = [] then (if dir_at tree cur then resolve tree cur cs else None)
      else if \<not> open_at tree cur then None
      else if c = ''.'' then resolve tree cur cs
      else if c = ''..'' then resolve tree (butlast cur) cs
      else if lookup_node tree (cur @ [c]) = None then None
      else resolve tree (cur @ [c]) cs)"

text \<open>\<^verbatim>\<open>os.stat\<close>: the node a path names, if any; the empty path names nothing.\<close>

definition stat :: "world \<Rightarrow> string \<Rightarrow> node option" where
  "stat w p =
     (if p = [] then None
      else (case resolve (fs_root w) [] (path_steps (cwd w) p) of
              None \<Rightarrow> None
            | Some cur \<Rightarrow> lookup_node (fs_root w) cur))"

definition os_path_exists :: "world \<Rightarrow> string \<Rightarrow> bool" where
  "os_path_exists w p = (stat w p \<noteq> None)"

definition os_path_getmtime :: "world \<Rightarrow> string \<Rightarrow> exn + timestamp" where
  "os_path_getmtime w p =
     (case stat w p of
        None \<Rightarrow> Inl OSError
      | Some (File t) \<Rightarrow> Inr t
      | Some (Dir t es) \<Rightarrow> Inr t
      | Some (NoAccess t) \<Rightarrow> Inr t)"

text \<open>
  \<^verbatim>\<open>os.walk(top)\<close>, top-down: one triple (directory path, subdirectory names, file names)
  for \<^verbatim>\<open>top\<close> and then the triples of each subdirectory, whose path is
  \<^verbatim>\<open>join(top, name)\<close>. A \<^verbatim>\<open>top\<close> that is no directory, or a directory that cannot be
  listed, yields nothing: the error of \<^verbatim>\<open>scandir\<close> is ignored.
\<close>

fun walk :: "string \<Rightarrow> node \<Rightarrow> (string \<times> string list \<times> string list) list" where
  "walk top_dir (File t) = []"
| "walk top_dir (NoAccess t) = []"
| "walk top_dir (Dir t es) =
     (top_dir, map fst (filter (\<lambda>e. is_dir (snd e)) es), map fst (filter (\<lambda>e. \<not> is_dir (snd e)) es))
       # concat (map (\<lambda>e. walk (os_path_join top_dir (fst e)) (snd e)) es)"

definition os_walk :: "world \<Rightarrow> string \<Rightarrow> (string \<times> string list \<times> string list) list" where
  "os_walk w top_dir = (case stat w top_dir of None \<Rightarrow> [] | Some n \<Rightarrow> walk top_dir n)"

text \<open>
  Putting a node under the name \<open>c\<close> into the directory at the place \<open>cur\<close>: a new entry
  goes to the end of the listing and gives the directory a new modification time, an
  entry of that name is replaced.
\<close>

fun put_entry :: "timestamp \<Rightarrow> string list \<Rightarrow> string \<Rightarrow> node \<Rightarrow> node \<Rightarrow> node" where
  "put_entry now [] c new (Dir t es) =
     Dir (if map_of es c = None then now else t) (AList.update c new es)"
| "put_entry now (d # ds) c new (Dir t es) =
     (case map_of es d of
        None \<Rightarrow> Dir t es
      | Some m \<Rightarrow> Dir t (AList.update d (put_entry now ds c new m) es))"
| "put_entry now cur c new (File t) = File t"
| "put_entry now cur c new (NoAccess t) = NoAccess t"

text \<open>
  \<^verbatim>\<open>os.makedirs(name)\<close> goes along the path and creates every directory that is missing.
  It raises when the path cannot be followed, and when its last step does not create a
  directory (the name exists already); what it has created by then stays. The flag
  says whether the last step created a directory.
\<close>

fun make_steps :: "timestamp \<Rightarrow> string list \<Rightarrow> bool \<Rightarrow> string list \<Rightarrow> node \<Rightarrow> node \<times> bool" where
  "make_steps now cur created [] tree = (tree, created)"
| "make_steps now cur created (c # cs) tree =
     (if c = [] then (if dir_at tree cur then make_steps now cur created cs tree else (tree, False))
      else if \<not> open_at tree cur then (tree, False)
      else if c = ''.'' then make_steps now cur created cs tree
      else if c = ''..'' then make_steps now (butlast cur) False cs tree
      else if lookup_node tree (cur @ [c]) = None
        then make_steps now (cur @ [c]) True cs (put_entry now cur c (Dir now []) tree)
      else make_steps now (cur @ [c]) False cs tree)"

definition os_makedirs :: "string \<Rightarrow> world \<Rightarrow> (exn + unit) \<times> world" where
  "os_makedirs name w =
     (if name = [] then (Inl OSError, w)
      else (case make_steps (local_clock w) [] False (path_steps (cwd w) name) (fs_root w) of
              (n, True) \<Rightarrow> (Inr (), emit (MakeDirs name) (w\<lparr>fs_root := n\<rparr>))
            | (n, False) \<Rightarrow> (Inl OSError, w\<lparr>fs_root := n\<rparr>)))"

text \<open>
  Writing a regular file, as a download does: the path up to its last component must
  lead to a directory that can be searched, the last component must be a name, and
  under that name a regular file is created or overwritten; a directory is not.
\<close>

definition write_file :: "timestamp \<Rightarrow> string list \<Rightarrow> node \<Rightarrow> node option" where
  "write_file now steps tree =
     (case resolve tree [] (butlast steps) of
        None \<Rightarrow> None
      | Some cur \<Rightarrow>
          (let c = last steps
           in if steps = [] \<or> c = [] \<or> c = ''.'' \<or> c = ''..'' \<or> \<not> open_at tree cur then None
              else (case lookup_node tree (cur @ [c]) of
                      None \<Rightarrow> Some (put_entry now cur c (File now) tree)
                    | Some (File t) \<Rightarrow> Some (put_entry now cur c (File now) tree)
                    | Some n \<Rightarrow> None)))"

subsection \<open>Store calls\<close>

text \<open>
  \<^verbatim>\<open>s3_client.Object(bucket, key).last_modified.timestamp()\<close>: the attribute is loaded
  with a metadata request, which raises \<^verbatim>\<open>ClientError\<close> when the store answers with an
  error or the bucket or the object does not exist, and the exception of the transport
  when the request fails otherwise.
\<close>

definition last_modified :: "world \<Rightarrow> string \<Rightarrow> string \<Rightarrow> exn + timestamp" where
  "last_modified w bucket_name key =
     (case head_fails w key of
        Some e \<Rightarrow> Inl e
      | None \<Rightarrow>
          (case map_of (buckets w) bucket_name of
             None \<Rightarrow> Inl ClientError
           | Some objs \<Rightarrow> (case map_of objs key of None \<Rightarrow> Inl ClientError | Some t \<Rightarrow> Inr t)))"

text \<open>
  \<^verbatim>\<open>Bucket(bucket).upload_file(path, key)\<close>: reads the local regular file and stores it
  under the key, overwriting; the store stamps the object with its own clock.
\<close>

definition upload_file :: "string \<Rightarrow> string \<Rightarrow> string \<Rightarrow> world \<Rightarrow> (exn + unit) \<times> world" where
  "upload_file bucket_name path key w =
     (case stat w path of
        Some (File t) \<Rightarrow>
          (case map_of (buckets w) bucket_name of
             Some objs \<Rightarrow>
               if upload_fails w key
               then (Inl S3UploadFailedError, emit (UploadFailed bucket_name path key) w)
               else (Inr (), emit (UploadFile bucket_name path key)
                       (w\<lparr>buckets := AList.update bucket_name
                             (AList.update key (store_clock w key) objs) (buckets w)\<rparr>))
           | None \<Rightarrow> (Inl S3UploadFailedError, emit (UploadFailed bucket_name path key) w))
      | _ \<Rightarrow> (Inl OSError, emit (UploadFailed bucket_name path key) w))"

text \<open>\<^verbatim>\<open>Bucket(bucket).download_file(key, path)\<close>: fetches the object and writes it to the path.\<close>

definition download_file :: "string \<Rightarrow> string \<Rightarrow> string \<Rightarrow> world \<Rightarrow> (exn + unit) \<times> world" where
  "download_file bucket_name key path w =
     (if download_fails w key
      then (Inl ClientError, emit (DownloadFailed bucket_name key path) w)
      else if path = [] then (Inl OSError, emit (DownloadFailed bucket_name key path) w)
      else (case write_file (local_clock w) (path_steps (cwd w) path) (fs_root w) of
              None \<Rightarrow> (Inl OSError, emit (DownloadFailed bucket_name key path) w)
            | Some n \<Rightarrow> (Inr (), emit (DownloadFile bucket_name key path) (w\<lparr>fs_root := n\<rparr>))))"

text \<open>
  \<^verbatim>\<open>bucket.objects.filter(Prefix=prefix)\<close>: the keys that start with the prefix, each once,
  in the order of their bytes, in which the store lists them.
\<close>

definition list_objects :: "(string \<times> timestamp) list \<Rightarrow> string \<Rightarrow> string list" where
  "list_objects objs prefix =
     sort (remdups (filter (\<lambda>key. startswith key prefix) (map fst objs)))"

section \<open>The program\<close>

text \<open>
  Every function takes the world in the place of the client and session objects and
  returns the world it leaves. A function that can raise returns \<open>Inl\<close> of the exception
  together with the world at the moment of the raise.
\<close>

subsection \<open>\<^verbatim>\<open>create_bucket_if_needed\<close>\<close>

text \<open>
  \<^verbatim>\<open>BucketAlreadyExists\<close> is a kind of \<^verbatim>\<open>ClientError\<close>; an exception of another kind (a
  missing region makes the request invalid) is not caught.
\<close>

definition create_bucket_if_needed :: "world \<Rightarrow> string \<Rightarrow> (exn + unit) \<times> world" where
  "create_bucket_if_needed w bucket_name =
     (if map_of (buckets w) bucket_name = None then
        (let w1 = emit (Print (CouldNotFindBucket bucket_name)) w
         in case create_fails w1 bucket_name of
              None \<Rightarrow>
                (Inr (), emit (CreateBucket bucket_name)
                           (w1\<lparr>buckets := buckets w1 @ [(bucket_name, [])]\<rparr>))
            | Some e \<Rightarrow>
                if e = ClientError
                then (Inr (), emit (Print BucketNameTaken) (emit (CreateBucketFailed bucket_name) w1))
                else (Inl e, emit (CreateBucketFailed bucket_name) w1))
      else (Inr (), w))"

subsection \<open>\<^verbatim>\<open>not_up_to_date\<close>\<close>

text \<open>
  The remote time is read first and a \<^verbatim>\<open>ClientError\<close> there answers \<^verbatim>\<open>True\<close>; only then
  is the local time read, and an error there is not caught. The second argument stands
  for the object \<^verbatim>\<open>s3_client.Object(bucket_name, key)\<close>.
\<close>

definition not_up_to_date :: "world \<Rightarrow> string \<Rightarrow> string \<times> string \<Rightarrow> exn + bool" where
  "not_up_to_date w current_file_path s3_file_path =
     (case last_modified w (fst s3_file_path) (snd s3_file_path) of
        Inl ClientError \<Rightarrow> Inr True
      | Inl e \<Rightarrow> Inl e
      | Inr s3_file_lmt \<Rightarrow>
          (case os_path_getmtime w current_file_path of
             Inl e \<Rightarrow> Inl e
           | Inr current_file_lmt \<Rightarrow> Inr (s3_file_lmt < current_file_lmt)))"

subsection \<open>\<^verbatim>\<open>back_up\<close>\<close>

text \<open>The local path and the key of one file (lines 120 and 121).\<close>

definition full_path_of :: "string \<Rightarrow> string \<Rightarrow> string" where
  "full_path_of dir_name file_name = replace_backslash (os_path_join dir_name file_name)"

definition s3_full_path_of :: "string \<Rightarrow> string \<Rightarrow> string" where
  "s3_full_path_of bucket_dir full_path = bucket_dir @ ''/'' @ full_path"

text \<open>The inner loop over the files of one directory.\<close>

fun back_up_files ::
  "string \<Rightarrow> string \<Rightarrow> string \<Rightarrow> string list \<Rightarrow> world \<Rightarrow> (exn + unit) \<times> world" where
  "back_up_files bucket_name bucket_dir dir_name [] w = (Inr (), w)"
| "back_up_files bucket_name bucket_dir dir_name (file_name # file_list) w =
     (let w1 = emit (Print (Uploading file_name)) w;
          full_path = full_path_of dir_name file_name;
          s3_full_path = s3_full_path_of bucket_dir full_path
      in case not_up_to_date w1 full_path (bucket_name, s3_full_path) of
           Inl e \<Rightarrow> (Inl e, w1)
         | Inr True \<Rightarrow>
             (case upload_file bucket_name full_path s3_full_path w1 of
                (Inl e, w2) \<Rightarrow> (Inl e, w2)
              | (Inr u, w2) \<Rightarrow>
                  back_up_files bucket_name bucket_dir dir_name file_list
                    (emit (Print (Uploaded file_name)) w2))
         | Inr False \<Rightarrow>
             back_up_files bucket_name bucket_dir dir_name file_list
               (emit (Print (UpToDate file_name)) w1))"

text \<open>The outer loop over the triples of the walk; the result is the flag \<^verbatim>\<open>success\<close>.\<close>

fun back_up_dirs ::
  "string \<Rightarrow> string \<Rightarrow> (string \<times> string list \<times> string list) list \<Rightarrow> bool \<Rightarrow> world
     \<Rightarrow> (exn + bool) \<times> world" where
  "back_up_dirs bucket_name bucket_dir [] success w = (Inr success, w)"
| "back_up_dirs bucket_name bucket_dir ((dir_name, subdir_list, file_list) # rest) success w =
     (case back_up_files bucket_name bucket_dir dir_name file_list
             (emit (Print (FoundDirectory dir_name)) w) of
        (Inl e, w1) \<Rightarrow> (Inl e, w1)
      | (Inr u, w1) \<Rightarrow> back_up_dirs bucket_name bucket_dir rest True w1)"

definition back_up :: "world \<Rightarrow> string \<Rightarrow> string \<Rightarrow> string \<Rightarrow> (exn + unit) \<times> world" where
  "back_up w root_dir bucket_name bucket_dir =
     (case back_up_dirs bucket_name bucket_dir (os_walk w root_dir) False w of
        (Inl e, w1) \<Rightarrow> (Inl e, w1)
      | (Inr success, w1) \<Rightarrow>
          if \<not> success then (Inr (), emit (Print (BackupNotFound root_dir)) w1)
          else (Inr (), w1))"

subsection \<open>\<^verbatim>\<open>restore\<close>\<close>

text \<open>The local path of one key (lines 151 and 152); \<^verbatim>\<open>root_dir\<close> may be \<^verbatim>\<open>None\<close>.\<close>

definition target_of :: "string \<Rightarrow> string option \<Rightarrow> string \<Rightarrow> string \<Rightarrow> exn + string" where
  "target_of cwd_now root_dir bucket_dir key =
     (case root_dir of
        None \<Rightarrow> Inr key
      | Some r \<Rightarrow>
          (case os_path_relpath cwd_now key bucket_dir of
             Inl e \<Rightarrow> Inl e
           | Inr rel \<Rightarrow> Inr (os_path_join r rel)))"

text \<open>
  Lines 153 to 156: when the directory of the target does not exist it is created, and
  only then is the key tested for a trailing slash. The result is \<open>True\<close> when the loop
  goes on to the next key (\<^verbatim>\<open>continue\<close>) and \<open>False\<close> when it goes on to the download.
\<close>

definition prepare_target :: "string \<Rightarrow> string \<Rightarrow> world \<Rightarrow> (exn + bool) \<times> world" where
  "prepare_target key target w =
     (if \<not> os_path_exists w (os_path_dirname target) then
        (case os_makedirs (os_path_dirname target) w of
           (Inl e, w1) \<Rightarrow> (Inl e, w1)
         | (Inr u, w1) \<Rightarrow>
             if key = [] then (Inl IndexError, w1)
             else (Inr (last key = CHR ''/''), w1))
      else (Inr False, w))"

text \<open>The loop over the listed keys; the result is the flag \<^verbatim>\<open>success\<close>.\<close>

fun restore_objects ::
  "string option \<Rightarrow> string \<Rightarrow> string \<Rightarrow> string list \<Rightarrow> bool \<Rightarrow> world \<Rightarrow> (exn + bool) \<times> world" where
  "restore_objects root_dir bucket_name bucket_dir [] success w = (Inr success, w)"
| "restore_objects root_dir bucket_name bucket_dir (key # keys) success w =
     (case target_of (cwd w) root_dir bucket_dir key of
        Inl e \<Rightarrow> (Inl e, w)
      | Inr target \<Rightarrow>
          (case prepare_target key target w of
             (Inl e, w1) \<Rightarrow> (Inl e, w1)
           | (Inr True, w1) \<Rightarrow> restore_objects root_dir bucket_name bucket_dir keys success w1
           | (Inr False, w1) \<Rightarrow>
               (case download_file bucket_name key target w1 of
                  (Inl e, w2) \<Rightarrow> (Inl e, w2)
                | (Inr u, w2) \<Rightarrow> restore_objects root_dir bucket_name bucket_dir keys True w2)))"

definition restore :: "world \<Rightarrow> string option \<Rightarrow> string \<Rightarrow> string \<Rightarrow> (exn + unit) \<times> world" where
  "restore w root_dir bucket_name bucket_dir =
     (case map_of (buckets w) bucket_name of
        None \<Rightarrow> (Inr (), emit (Print (InvalidBucket bucket_name)) w)
      | Some objs \<Rightarrow>
          (case restore_objects root_dir bucket_name bucket_dir
                  (list_objects objs bucket_dir) False w of
             (Inl e, w1) \<Rightarrow> (Inl e, w1)
           | (Inr success, w1) \<Rightarrow>
               if success then
                 (case root_dir of
                    None \<Rightarrow> (Inl TypeError, w1)
                  | Some r \<Rightarrow> (Inr (), emit (Print (RestoreCompleted bucket_name r)) w1))
               else (Inr (), emit (Print (RestoreNotFound bucket_dir bucket_name)) w1)))"

subsection \<open>\<^verbatim>\<open>main\<close>\<close>

text \<open>\<^verbatim>\<open>s.split("::")[1]\<close> raises \<^verbatim>\<open>IndexError\<close> when there is no second piece.\<close>

definition second_piece :: "string \<Rightarrow> exn + string" where
  "second_piece s =
     (case split_dcolon [] s of x # y # zs \<Rightarrow> Inr y | _ \<Rightarrow> Inl IndexError)"

text \<open>\<^verbatim>\<open>s.split("::")[0]\<close>: a split has at least one piece.\<close>

definition first_piece :: "string \<Rightarrow> string" where
  "first_piece s = (case split_dcolon [] s of x # xs \<Rightarrow> x | [] \<Rightarrow> [])"

text \<open>The bodies of the two \<^verbatim>\<open>try\<close> blocks (lines 41 to 46 and 52 to 56).\<close>

definition main_backup :: "world \<Rightarrow> string list \<Rightarrow> (exn + unit) \<times> world" where
  "main_backup w argv =
     (let root_dir = argv ! 1;
          bucket_name = first_piece (argv ! 2)
      in case second_piece (argv ! 2) of
           Inl e \<Rightarrow> (Inl e, w)
         | Inr bucket_dir \<Rightarrow>
             (case create_bucket_if_needed w bucket_name of
                (Inl e, w1) \<Rightarrow> (Inl e, w1)
              | (Inr u, w1) \<Rightarrow>
                  back_up (emit (Print BackingUp) w1) root_dir bucket_name bucket_dir))"

definition main_restore :: "world \<Rightarrow> string list \<Rightarrow> (exn + unit) \<times> world" where
  "main_restore w argv =
     (let bucket_name = first_piece (argv ! 1)
      in case second_piece (argv ! 1) of
           Inl e \<Rightarrow> (Inl e, w)
         | Inr bucket_dir \<Rightarrow>
             (let root_dir = argv ! 2
              in restore (emit (Print Restoring) w) (Some root_dir) bucket_name bucket_dir))"

text \<open>A bare \<^verbatim>\<open>except\<close> catches every exception and prints the fatal-error message.\<close>

definition catch_all :: "(exn + unit) \<times> world \<Rightarrow> world" where
  "catch_all r = (case r of (Inl e, w) \<Rightarrow> emit (Print FatalError) w | (Inr u, w) \<Rightarrow> w)"

definition main :: "world \<Rightarrow> string list \<Rightarrow> world" where
  "main w argv =
     (if length argv < 3 then emit (Print BadArgumentCount) w
      else
        (let w1 = emit NewSession (emit NewResource w)
         in if argv ! 0 = ''backup'' then catch_all (main_backup w1 argv)
            else if argv ! 0 = ''restore'' then catch_all (main_restore w1 argv)
            else emit (Print NoValidOperation) w1))"

section \<open>Notions used to state the properties\<close>

text \<open>The events that a call adds to the trace: those of \<open>w'\<close> after those of \<open>w\<close>.\<close>

definition emitted :: "world \<Rightarrow> world \<Rightarrow> event list" where
  "emitted w w' = drop (length (trace w)) (trace w')"

text \<open>A transfer that raised.\<close>

fun is_failed :: "event \<Rightarrow> bool" where
  "is_failed (UploadFailed b p k) = True"
| "is_failed (DownloadFailed b k p) = True"
| "is_failed e = False"

text \<open>
  \<open>same_host\<close>: only the store and the trace may differ, as after a backup.
  \<open>same_store\<close>: only the file system and the trace may differ, as after a restore.
\<close>

definition same_host :: "world \<Rightarrow> world \<Rightarrow> bool" where
  "same_host w w' =
     (cwd w' = cwd w \<and> fs_root w' = fs_root w \<and> local_clock w' = local_clock w
      \<and> store_clock w' = store_clock w \<and> create_fails w' = create_fails w
      \<and> head_fails w' = head_fails w \<and> upload_fails w' = upload_fails w
      \<and> download_fails w' = download_fails w)"

definition same_store :: "world \<Rightarrow> world \<Rightarrow> bool" where
  "same_store w w' =
     (cwd w' = cwd w \<and> local_clock w' = local_clock w \<and> buckets w' = buckets w
      \<and> store_clock w' = store_clock w \<and> create_fails w' = create_fails w
      \<and> head_fails w' = head_fails w \<and> upload_fails w' = upload_fails w
      \<and> download_fails w' = download_fails w)"

text \<open>
  A file system \<open>tree'\<close> grows out of \<open>tree\<close> when every node of \<open>tree\<close> is still there,
  as a node of the same kind; this is what \<^verbatim>\<open>os.makedirs\<close> does to the tree.
\<close>

fun same_kind :: "node \<Rightarrow> node \<Rightarrow> bool" where
  "same_kind (File t) (File t') = True"
| "same_kind (Dir t es) (Dir t' es') = True"
| "same_kind (NoAccess t) (NoAccess t') = True"
| "same_kind n n' = False"

definition grows :: "node \<Rightarrow> node \<Rightarrow> bool" where
  "grows tree tree' =
     (\<forall>p n. lookup_node tree p = Some n \<longrightarrow> (\<exists>n'. lookup_node tree' p = Some n' \<and> same_kind n n'))"

text \<open>
  The events that the inner loop of \<^verbatim>\<open>back_up\<close> can add for the files of one directory,
  and those that the whole walk can add.
\<close>

fun file_event :: "string \<Rightarrow> string \<Rightarrow> string \<Rightarrow> string list \<Rightarrow> event \<Rightarrow> bool" where
  "file_event bucket_name bucket_dir dir_name file_list (Print (Uploading f)) = (f \<in> set file_list)"
| "file_event bucket_name bucket_dir dir_name file_list (Print (Uploaded f)) = (f \<in> set file_list)"
| "file_event bucket_name bucket_dir dir_name file_list (Print (UpToDate f)) = (f \<in> set file_list)"
| "file_event bucket_name bucket_dir dir_name file_list (UploadFile b p k) =
     (b = bucket_name \<and> (\<exists>f \<in> set file_list.
        p = full_path_of dir_name f \<and> k = s3_full_path_of bucket_dir (full_path_of dir_name f)))"
| "file_event bucket_name bucket_dir dir_name file_list (UploadFailed b p k) =
     (b = bucket_name \<and> (\<exists>f \<in> set file_list.
        p = full_path_of dir_name f \<and> k = s3_full_path_of bucket_dir (full_path_of dir_name f)))"
| "file_event bucket_name bucket_dir dir_name file_list e = False"

definition walk_event ::
  "string \<Rightarrow> string \<Rightarrow> (string \<times> string list \<times> string list) list \<Rightarrow> event \<Rightarrow> bool" where
  "walk_event bucket_name bucket_dir walked e =
     (\<exists>(dir_name, subdir_list, file_list) \<in> set walked.
        e = Print (FoundDirectory dir_name) \<or> file_event bucket_name bucket_dir dir_name file_list e)"

text \<open>The events that the loop of \<^verbatim>\<open>restore\<close> can add for the listed keys.\<close>

fun restore_event :: "string \<Rightarrow> string list \<Rightarrow> event \<Rightarrow> bool" where
  "restore_event bucket_name keys (MakeDirs d) = True"
| "restore_event bucket_name keys (DownloadFile b k p) = (b = bucket_name \<and> k \<in> set keys)"
| "restore_event bucket_name keys (DownloadFailed b k p) = (b = bucket_name \<and> k \<in> set keys)"
| "restore_event bucket_name keys e = False"

text \<open>A download that completed.\<close>

fun is_download :: "event \<Rightarrow> bool" where
  "is_download (DownloadFile b k p) = True"
| "is_download e = False"

text \<open>
  A listing that consists of directory markers (keys with a trailing slash) each of
  which finds the directory of its target missing when it is reached: the result is the
  list of the directories created for them, or \<open>None\<close> for any other listing.
\<close>

fun marker_dirs :: "world \<Rightarrow> string option \<Rightarrow> string \<Rightarrow> string list \<Rightarrow> string list option" where
  "marker_dirs w root_dir bucket_dir [] = Some []"
| "marker_dirs w root_dir bucket_dir (key # keys) =
     (if key \<noteq> [] \<and> last key = CHR ''/'' then
        (case target_of (cwd w) root_dir bucket_dir key of
           Inl e \<Rightarrow> None
         | Inr target \<Rightarrow>
             if os_path_exists w (os_path_dirname target) then None
             else (case os_makedirs (os_path_dirname target) w of
                     (Inl e, w1) \<Rightarrow> None
                   | (Inr u, w1) \<Rightarrow>
                       map_option ((#) (os_path_dirname target))
                         (marker_dirs w1 root_dir bucket_dir keys)))
      else None)"

text \<open>
  The files below a directory, each as the list of names that leads to it, in the order
  in which the walk meets them; and the (directory path, file name) pairs of a walk.
\<close>

fun files_under :: "node \<Rightarrow> string list list" where
  "files_under (File t) = []"
| "files_under (NoAccess t) = []"
| "files_under (Dir t es) =
     map (\<lambda>e. [fst e]) (filter (\<lambda>e. \<not> is_dir (snd e)) es)
       @ concat (map (\<lambda>e. map ((#) (fst e)) (files_under (snd e))) es)"

definition walk_files :: "(string \<times> string list \<times> string list) list \<Rightarrow> (string \<times> string) list" where
  "walk_files walked =
     concat (map (\<lambda>(dir_name, subdir_list, file_list). map (\<lambda>f. (dir_name, f)) file_list) walked)"

text \<open>
  A name as directory entries and relative paths are usually made of: not empty, not
  \<^verbatim>\<open>.\<close> or \<^verbatim>\<open>..\<close>, without slash or backslash.
\<close>

definition plain_name :: "string \<Rightarrow> bool" where
  "plain_name s = (s \<noteq> [] \<and> s \<noteq> ''.'' \<and> s \<noteq> ''..'' \<and> CHR ''/'' \<notin> set s \<and> CHR 0x5C \<notin> set s)"

text \<open>
  For one walked file: the metadata lookup of its key does not fail, and the time the
  store gives to an upload of the key is not earlier than the file's modification time.
\<close>

definition clock_ok :: "world \<Rightarrow> string \<Rightarrow> string \<times> string \<Rightarrow> bool" where
  "clock_ok w bucket_dir x =
     (let full_path = full_path_of (fst x) (snd x);
          s3_full_path = s3_full_path_of bucket_dir full_path
      in head_fails w s3_full_path = None
         \<and> (case os_path_getmtime w full_path of
              Inr t \<Rightarrow> t \<le> store_clock w s3_full_path
            | Inl e \<Rightarrow> True))"

text \<open>For one walked file: the change check answers \<^verbatim>\<open>False\<close>.\<close>

definition up_to_date :: "world \<Rightarrow> string \<Rightarrow> string \<Rightarrow> string \<times> string \<Rightarrow> bool" where
  "up_to_date w bucket_name bucket_dir x =
     (let full_path = full_path_of (fst x) (snd x)
      in not_up_to_date w full_path (bucket_name, s3_full_path_of bucket_dir full_path)
           = Inr False)"

text \<open>What \<^verbatim>\<open>back_up\<close> prints for a directory all of whose files are up to date.\<close>

definition unchanged_prints :: "string \<times> string list \<times> string list \<Rightarrow> event list" where
  "unchanged_prints x =
     Print (FoundDirectory (fst x))
       # concat (map (\<lambda>f. [Print (Uploading f), Print (UpToDate f)]) (snd (snd x)))"

text \<open>
  The key as the specification states it: the prefix, a slash, and the path of the file
  relative to the root, with backslashes turned into slashes.
\<close>

definition spec_key :: "string \<Rightarrow> string \<Rightarrow> string" where
  "spec_key prefix relative_path = prefix @ ''/'' @ replace_backslash relative_path"

subsection \<open>An example world\<close>

text \<open>
  The working directory \<^verbatim>\<open>/home/u\<close> holds a directory \<^verbatim>\<open>r\<close> with the files \<^verbatim>\<open>r/a.txt\<close> and
  \<^verbatim>\<open>r/s/b.txt\<close>, and two empty directories \<^verbatim>\<open>e\<close> and \<^verbatim>\<open>out\<close>. The account has an empty
  bucket \<^verbatim>\<open>b\<close>, a bucket \<^verbatim>\<open>m\<close> with directory markers only and a bucket \<^verbatim>\<open>c\<close> with two
  objects. No request fails.
\<close>

definition example_fs :: node where
  "example_fs =
     Dir 0 [(''home'', Dir 0 [(''u'', Dir 0
       [(''r'', Dir 0 [(''a.txt'', File 100), (''s'', Dir 0 [(''b.txt'', File 50)])]),
        (''e'', Dir 0 []),
        (''out'', Dir 0 [])])])]"

definition example_world :: world where
  "example_world =
     \<lparr>cwd = ''/home/u'',
      fs_root = example_fs,
      local_clock = 300,
      buckets = [(''b'', []),
                 (''m'', [(''p/a/'', 10), (''q/y/z/'', 11)]),
                 (''c'', [(''d/x.txt'', 20), (''d/y.txt'', 60)])],
      store_clock = (\<lambda>key. 200),
      create_fails = (\<lambda>bucket_name. None),
      head_fails = (\<lambda>key. None),
      upload_fails = (\<lambda>key. False),
      download_fails = (\<lambda>key. False),
      trace = []\<rparr>"

text \<open>The same world where the upload of \<^verbatim>\<open>p/r/a.txt\<close> fails.\<close>

definition failing_upload_world :: world where
  "failing_upload_world = example_world\<lparr>upload_fails := (\<lambda>key. key = ''p/r/a.txt'')\<rparr>"

text \<open>The same world where the download of \<^verbatim>\<open>d/y.txt\<close> fails.\<close>

definition failing_download_world :: world where
  "failing_download_world = example_world\<lparr>download_fails := (\<lambda>key. key = ''d/y.txt'')\<rparr>"

text \<open>The same world where the store answers the metadata request for \<^verbatim>\<open>d/y.txt\<close> with an error.\<close>

definition store_error_world :: world where
  "store_error_world =
     example_world\<lparr>head_fails := (\<lambda>key. if key = ''d/y.txt'' then Some ClientError else None)\<rparr>"

text \<open>
  The same world where the store is not reached: the metadata request raises
  \<^verbatim>\<open>EndpointConnectionError\<close>, which is no \<^verbatim>\<open>ClientError\<close>.
\<close>

definition unreachable_store_world :: world where
  "unreachable_store_world =
     example_world\<lparr>head_fails := (\<lambda>key. Some EndpointConnectionError)\<rparr>"

text \<open>
  The same world where the working directory holds a directory \<^verbatim>\<open>locked\<close> on which the
  user has no permission.
\<close>

definition locked_world :: world where
  "locked_world =
     example_world\<lparr>fs_root :=
       Dir 0 [(''home'', Dir 0 [(''u'', Dir 0 [(''e'', Dir 0 []), (''locked'', NoAccess 7)])])]\<rparr>"

text \<open>The same world where the store stamps every upload with the time 50.\<close>

definition lagging_clock_world :: world where
  "lagging_clock_world = example_world\<lparr>store_clock := (\<lambda>key. 50)\<rparr>"

section \<open>Basic facts\<close>

lemma emit_fields [simp]:
  "cwd (emit e w) = cwd w"
  "fs_root (emit e w) = fs_root w"
  "local_clock (emit e w) = local_clock w"
  "buckets (emit e w) = buckets w"
  "store_clock (emit e w) = store_clock w"
  "create_fails (emit e w) = create_fails w"
  "head_fails (emit e w) = head_fails w"
  "upload_fails (emit e w) = upload_fails w"
  "download_fails (emit e w) = download_fails w"
  "trace (emit e w) = trace w @ [e]"
  by (simp_all add: emit_def)

lemma emitted_append [simp]: "trace w' = trace w @ es \<Longrightarrow> emitted w w' = es"
  by (simp add: emitted_def)

lemma emitted_emit [simp]: "emitted w (emit e w) = [e]"
  by (simp add: emitted_def)

section \<open>What a run adds to the trace\<close>

lemma same_host_refl [simp]: "same_host w w"
  by (simp add: same_host_def)

lemma same_host_emit [simp]: "same_host w (emit e w') = same_host w w'"
  by (simp add: same_host_def)

lemma same_host_emit_left [simp]: "same_host (emit e w) w' = same_host w w'"
  by (simp add: same_host_def)

lemma same_host_trans: "same_host w w1 \<Longrightarrow> same_host w1 w2 \<Longrightarrow> same_host w w2"
  by (simp add: same_host_def)

lemma stat_same_host: "same_host w w' \<Longrightarrow> stat w' p = stat w p"
  by (simp add: same_host_def stat_def cong: option.case_cong)

lemma failed_last_append:
  assumes "\<forall>e \<in> set xs. \<not> is_failed e"
    and "\<forall>e \<in> set es. is_failed e \<longrightarrow> Q \<and> last es = e"
  shows "\<forall>e \<in> set (xs @ es). is_failed e \<longrightarrow> Q \<and> last (xs @ es) = e"
  using assms by (auto simp: last_append)

lemma upload_file_run:
  assumes "upload_file b p k w = (r, w')"
  shows "same_host w w'
       \<and> ((r = Inr () \<and> trace w' = trace w @ [UploadFile b p k])
          \<or> ((\<exists>x. r = Inl x) \<and> trace w' = trace w @ [UploadFailed b p k] \<and> buckets w' = buckets w))"
  using assms
  by (auto simp: upload_file_def same_host_def split: option.splits node.splits if_splits)

lemma file_event_mono:
  "file_event bn bd dir fs e \<Longrightarrow> set fs \<subseteq> set fs' \<Longrightarrow> file_event bn bd dir fs' e"
  by (induction bn bd dir fs e rule: file_event.induct) auto

lemma back_up_files_run:
  "back_up_files bn bd dir files w = (r, w') \<Longrightarrow>
     \<exists>es. trace w' = trace w @ es \<and> same_host w w'
        \<and> (\<forall>e \<in> set es. file_event bn bd dir files e)
        \<and> (\<forall>e \<in> set es. is_failed e \<longrightarrow> (\<exists>x. r = Inl x) \<and> last es = e)"
proof (induction files arbitrary: w)
  case Nil
  then show ?case by simp
next
  case (Cons f files)
  let ?w1 = "emit (Print (Uploading f)) w"
  let ?p = "full_path_of dir f"
  let ?k = "s3_full_path_of bd ?p"
  have mono: "\<And>e. file_event bn bd dir files e \<Longrightarrow> file_event bn bd dir (f # files) e"
    by (erule file_event_mono) auto
  show ?case
  proof (cases "not_up_to_date ?w1 ?p (bn, ?k)")
    case (Inl x)
    with Cons.prems have "r = Inl x" "w' = ?w1" by (simp_all add: Let_def)
    then show ?thesis by simp
  next
    case (Inr changed)
    show ?thesis
    proof (cases changed)
      case False
      with Inr Cons.prems
      have "back_up_files bn bd dir files (emit (Print (UpToDate f)) ?w1) = (r, w')"
        by (simp add: Let_def)
      from Cons.IH [OF this] obtain es where es:
        "trace w' = trace w @ [Print (Uploading f), Print (UpToDate f)] @ es"
        "same_host w w'" "\<forall>e \<in> set es. file_event bn bd dir files e"
        "\<forall>e \<in> set es. is_failed e \<longrightarrow> (\<exists>x. r = Inl x) \<and> last es = e"
        by (auto simp: same_host_def)
      from es mono show ?thesis
        by (intro exI [of _ "[Print (Uploading f), Print (UpToDate f)] @ es"]) auto
    next
      case True
      obtain r2 w2 where up: "upload_file bn ?p ?k ?w1 = (r2, w2)"
        by (cases "upload_file bn ?p ?k ?w1")
      note run = upload_file_run [OF up]
      show ?thesis
      proof (cases r2)
        case (Inl x)
        with True Inr up Cons.prems have "r = Inl x" "w' = w2" by (simp_all add: Let_def)
        with run Inl show ?thesis
          by (intro exI [of _ "[Print (Uploading f), UploadFailed bn ?p ?k]"])
             (auto simp: same_host_def)
      next
        case (Inr u)
        with True \<open>not_up_to_date ?w1 ?p (bn, ?k) = Inr changed\<close> up Cons.prems
        have "back_up_files bn bd dir files (emit (Print (Uploaded f)) w2) = (r, w')"
          by (simp add: Let_def)
        from Cons.IH [OF this] obtain es where es:
          "trace w' = trace w2 @ [Print (Uploaded f)] @ es"
          "same_host w2 w'" "\<forall>e \<in> set es. file_event bn bd dir files e"
          "\<forall>e \<in> set es. is_failed e \<longrightarrow> (\<exists>x. r = Inl x) \<and> last es = e"
          by (auto simp: same_host_def)
        from run Inr have w2: "trace w2 = trace w @ [Print (Uploading f), UploadFile bn ?p ?k]"
          "same_host w w2" by (auto simp: same_host_def)
        from es w2 mono show ?thesis
          by (intro exI [of _ "[Print (Uploading f), UploadFile bn ?p ?k, Print (Uploaded f)] @ es"])
             (auto simp: same_host_def)
      qed
    qed
  qed
qed


lemma walk_event_Cons:
  "walk_event bn bd walked e \<Longrightarrow> walk_event bn bd (x # walked) e"
  "file_event bn bd dir files e \<Longrightarrow> walk_event bn bd ((dir, subs, files) # walked) e"
  "walk_event bn bd ((dir, subs, files) # walked) (Print (FoundDirectory dir))"
  by (auto simp: walk_event_def)

lemma back_up_dirs_run:
  "back_up_dirs bn bd walked s w = (r, w') \<Longrightarrow>
     \<exists>es. trace w' = trace w @ es \<and> same_host w w'
        \<and> (\<forall>e \<in> set es. walk_event bn bd walked e)
        \<and> (\<forall>e \<in> set es. is_failed e \<longrightarrow> (\<exists>x. r = Inl x) \<and> last es = e)
        \<and> (\<forall>s'. r = Inr s' \<longrightarrow> s' = (s \<or> walked \<noteq> []))"
proof (induction walked arbitrary: s w)
  case Nil
  then show ?case by auto
next
  case (Cons x walked)
  obtain dir subs files where x: "x = (dir, subs, files)"
    by (cases x)
  let ?w0 = "emit (Print (FoundDirectory dir)) w"
  obtain r1 w1 where files: "back_up_files bn bd dir files ?w0 = (r1, w1)"
    by (cases "back_up_files bn bd dir files ?w0")
  from back_up_files_run [OF files] obtain es1 where es1:
    "trace w1 = trace w @ [Print (FoundDirectory dir)] @ es1" "same_host w w1"
    "\<forall>e \<in> set es1. file_event bn bd dir files e"
    "\<forall>e \<in> set es1. is_failed e \<longrightarrow> (\<exists>x. r1 = Inl x) \<and> last es1 = e"
    by auto
  show ?case
  proof (cases r1)
    case (Inl e)
    with Cons.prems x files have "r = Inl e" "w' = w1" by simp_all
    with es1 x show ?thesis
      by (intro exI [of _ "[Print (FoundDirectory dir)] @ es1"])
         (auto simp: walk_event_Cons)
  next
    case (Inr u)
    with Cons.prems x files have "back_up_dirs bn bd walked True w1 = (r, w')" by simp
    from Cons.IH [OF this] obtain es where es:
      "trace w' = trace w1 @ es" "same_host w1 w'"
      "\<forall>e \<in> set es. walk_event bn bd walked e"
      "\<forall>e \<in> set es. is_failed e \<longrightarrow> (\<exists>x. r = Inl x) \<and> last es = e"
      "\<forall>s'. r = Inr s' \<longrightarrow> s' = True"
      by auto
    from es1 Inr have "\<forall>e \<in> set ([Print (FoundDirectory dir)] @ es1). \<not> is_failed e"
      by auto
    from failed_last_append [OF this es(4)]
    have failed: "\<forall>e \<in> set ([Print (FoundDirectory dir)] @ es1 @ es).
                    is_failed e \<longrightarrow> (\<exists>x. r = Inl x) \<and> last ([Print (FoundDirectory dir)] @ es1 @ es) = e"
      by simp
    have host: "same_host w w'"
      using es1(2) es(2) by (rule same_host_trans)
    have events: "\<forall>e \<in> set ([Print (FoundDirectory dir)] @ es1 @ es). walk_event bn bd (x # walked) e"
      using es1(3) es(3) x by (auto simp: walk_event_Cons)
    have "trace w' = trace w @ [Print (FoundDirectory dir)] @ es1 @ es"
      using es(1) es1(1) by simp
    with failed host events es(5) show ?thesis
      by (intro exI [of _ "[Print (FoundDirectory dir)] @ es1 @ es"]) simp
  qed
qed


lemma back_up_run:
  assumes "back_up w root_dir bn bd = (r, w')"
  shows "\<exists>es. trace w' = trace w @ es \<and> same_host w w'
        \<and> (\<forall>e \<in> set es. walk_event bn bd (os_walk w root_dir) e
               \<or> (e = Print (BackupNotFound root_dir) \<and> os_walk w root_dir = [] \<and> r = Inr ()))
        \<and> (\<forall>e \<in> set es. is_failed e \<longrightarrow> (\<exists>x. r = Inl x) \<and> last es = e)"
proof -
  obtain r1 w1 where dirs: "back_up_dirs bn bd (os_walk w root_dir) False w = (r1, w1)"
    by (cases "back_up_dirs bn bd (os_walk w root_dir) False w")
  from back_up_dirs_run [OF dirs] obtain es where es:
    "trace w1 = trace w @ es" "same_host w w1"
    "\<forall>e \<in> set es. walk_event bn bd (os_walk w root_dir) e"
    "\<forall>e \<in> set es. is_failed e \<longrightarrow> (\<exists>x. r1 = Inl x) \<and> last es = e"
    "\<forall>s'. r1 = Inr s' \<longrightarrow> s' = (os_walk w root_dir \<noteq> [])"
    by auto
  show ?thesis
  proof (cases r1)
    case (Inl e)
    with assms dirs have "r = Inl e" "w' = w1" by (simp_all add: back_up_def)
    with es Inl show ?thesis by (intro exI [of _ es]) auto
  next
    case (Inr s')
    with es have s': "s' = (os_walk w root_dir \<noteq> [])" and clean: "\<forall>e \<in> set es. \<not> is_failed e"
      by auto
    show ?thesis
    proof (cases s')
      case True
      with assms dirs Inr have "r = Inr ()" "w' = w1" by (simp_all add: back_up_def)
      with es clean show ?thesis by (intro exI [of _ es]) auto
    next
      case False
      with assms dirs Inr have "r = Inr ()" "w' = emit (Print (BackupNotFound root_dir)) w1"
        by (simp_all add: back_up_def)
      with es clean s' False show ?thesis
        by (intro exI [of _ "es @ [Print (BackupNotFound root_dir)]"]) auto
    qed
  qed
qed

lemma same_store_refl [simp]: "same_store w w"
  by (simp add: same_store_def)

lemma same_store_emit [simp]: "same_store w (emit e w') = same_store w w'"
  by (simp add: same_store_def)

lemma same_store_emit_left [simp]: "same_store (emit e w) w' = same_store w w'"
  by (simp add: same_store_def)

lemma same_store_trans: "same_store w w1 \<Longrightarrow> same_store w1 w2 \<Longrightarrow> same_store w w2"
  by (simp add: same_store_def)

lemma os_makedirs_run:
  assumes "os_makedirs name w = (r, w')"
  shows "same_store w w'
       \<and> ((r = Inr () \<and> trace w' = trace w @ [MakeDirs name])
          \<or> ((\<exists>x. r = Inl x) \<and> trace w' = trace w))"
  using assms
  by (auto simp: os_makedirs_def same_store_def emit_def
           split: if_splits prod.splits bool.splits)

lemma download_file_run:
  assumes "download_file b k p w = (r, w')"
  shows "same_store w w'
       \<and> ((r = Inr () \<and> trace w' = trace w @ [DownloadFile b k p])
          \<or> ((\<exists>x. r = Inl x) \<and> trace w' = trace w @ [DownloadFailed b k p]
              \<and> fs_root w' = fs_root w))"
  using assms by (auto simp: download_file_def same_store_def split: if_splits option.splits)

lemma prepare_target_run:
  assumes "prepare_target key target w = (r, w')"
  shows "same_store w w'
       \<and> (trace w' = trace w \<or> trace w' = trace w @ [MakeDirs (os_path_dirname target)])"
proof (cases "os_path_exists w (os_path_dirname target)")
  case True
  with assms show ?thesis by (simp add: prepare_target_def)
next
  case False
  obtain r1 w1 where mk: "os_makedirs (os_path_dirname target) w = (r1, w1)"
    by (cases "os_makedirs (os_path_dirname target) w")
  from False mk assms have "w' = w1"
    by (cases r1) (auto simp: prepare_target_def split: if_splits)
  with os_makedirs_run [OF mk] show ?thesis by auto
qed

lemma restore_event_mono:
  "restore_event bn keys e \<Longrightarrow> set keys \<subseteq> set keys' \<Longrightarrow> restore_event bn keys' e"
  by (induction bn keys e rule: restore_event.induct) auto

lemma restore_objects_run:
  "restore_objects rd bn bd keys s w = (r, w') \<Longrightarrow>
     \<exists>es. trace w' = trace w @ es \<and> same_store w w'
        \<and> (\<forall>e \<in> set es. restore_event bn keys e)
        \<and> (\<forall>e \<in> set es. is_failed e \<longrightarrow> (\<exists>x. r = Inl x) \<and> last es = e)
        \<and> (\<forall>s'. r = Inr s' \<longrightarrow> s' = (s \<or> (\<exists>e \<in> set es. is_download e)))"
proof (induction keys arbitrary: s w)
  case Nil
  then show ?case by auto
next
  case (Cons key keys)
  have mono: "\<And>e. restore_event bn keys e \<Longrightarrow> restore_event bn (key # keys) e"
    by (erule restore_event_mono) auto
  show ?case
  proof (cases "target_of (cwd w) rd bd key")
    case (Inl x)
    with Cons.prems have "r = Inl x" "w' = w" by simp_all
    then show ?thesis by simp
  next
    case (Inr target)
    obtain r1 w1 where prep: "prepare_target key target w = (r1, w1)"
      by (cases "prepare_target key target w")
    from prepare_target_run [OF prep] obtain es1 where es1:
      "trace w1 = trace w @ es1" "same_store w w1"
      "es1 = [] \<or> es1 = [MakeDirs (os_path_dirname target)]"
      by auto
    then have ev1: "\<forall>e \<in> set es1. restore_event bn (key # keys) e"
      and clean1: "\<forall>e \<in> set es1. \<not> is_failed e" and nodl1: "\<forall>e \<in> set es1. \<not> is_download e"
      by auto
    show ?thesis
    proof (cases r1)
      case (Inl x)
      with Cons.prems Inr prep have "r = Inl x" "w' = w1" by simp_all
      with es1 ev1 clean1 show ?thesis by (intro exI [of _ es1]) auto
    next
      case skip: (Inr continue)
      show ?thesis
      proof (cases continue)
        case True
        with Cons.prems Inr prep skip
        have "restore_objects rd bn bd keys s w1 = (r, w')" by simp
        from Cons.IH [OF this] obtain es where es:
          "trace w' = trace w1 @ es" "same_store w1 w'"
          "\<forall>e \<in> set es. restore_event bn keys e"
          "\<forall>e \<in> set es. is_failed e \<longrightarrow> (\<exists>x. r = Inl x) \<and> last es = e"
          "\<forall>s'. r = Inr s' \<longrightarrow> s' = (s \<or> (\<exists>e \<in> set es. is_download e))"
          by auto
        have "trace w' = trace w @ es1 @ es"
          using es(1) es1(1) by simp
        moreover have "same_store w w'"
          using es1(2) es(2) by (rule same_store_trans)
        moreover have "\<forall>e \<in> set (es1 @ es). restore_event bn (key # keys) e"
          using ev1 es(3) mono by auto
        moreover note failed_last_append [OF clean1 es(4)]
        moreover have "\<forall>s'. r = Inr s' \<longrightarrow> s' = (s \<or> (\<exists>e \<in> set (es1 @ es). is_download e))"
          using es(5) nodl1 by auto
        ultimately show ?thesis by (intro exI [of _ "es1 @ es"]) simp
      next
        case False
        obtain r2 w2 where dl: "download_file bn key target w1 = (r2, w2)"
          by (cases "download_file bn key target w1")
        note run = download_file_run [OF dl]
        show ?thesis
        proof (cases r2)
          case (Inl x)
          with Cons.prems Inr prep skip False dl have "r = Inl x" "w' = w2" by simp_all
          moreover from run Inl have "trace w2 = trace w1 @ [DownloadFailed bn key target]"
            "same_store w1 w2" by auto
          moreover note es1 ev1
          ultimately show ?thesis
            by (intro exI [of _ "es1 @ [DownloadFailed bn key target]"])
               (auto simp: same_store_def)
        next
          case ok: (Inr u)
          with Cons.prems Inr prep skip False dl
          have "restore_objects rd bn bd keys True w2 = (r, w')" by simp
          from Cons.IH [OF this] obtain es where es:
            "trace w' = trace w2 @ es" "same_store w2 w'"
            "\<forall>e \<in> set es. restore_event bn keys e"
            "\<forall>e \<in> set es. is_failed e \<longrightarrow> (\<exists>x. r = Inl x) \<and> last es = e"
            "\<forall>s'. r = Inr s' \<longrightarrow> s' = True"
            by auto
          from run ok have w2: "trace w2 = trace w1 @ [DownloadFile bn key target]"
            "same_store w1 w2" by auto
          let ?pre = "es1 @ [DownloadFile bn key target]"
          have "trace w' = trace w @ ?pre @ es"
            using es(1) es1(1) w2(1) by simp
          moreover have "same_store w w'"
            using es1(2) w2(2) es(2) by (blast intro: same_store_trans)
          moreover have "\<forall>e \<in> set (?pre @ es). restore_event bn (key # keys) e"
            using ev1 es(3) mono by auto
          moreover have "\<forall>e \<in> set ?pre. \<not> is_failed e"
            using clean1 by auto
          note failed_last_append [OF this es(4)]
          moreover have "\<forall>s'. r = Inr s' \<longrightarrow> s' = (s \<or> (\<exists>e \<in> set (?pre @ es). is_download e))"
            using es(5) by auto
          ultimately show ?thesis by (intro exI [of _ "?pre @ es"]) simp
        qed
      qed
    qed
  qed
qed


lemma restore_run:
  assumes "restore w rd bn bd = (r, w')"
  shows "\<exists>es. trace w' = trace w @ es \<and> same_store w w'
        \<and> (\<forall>e \<in> set es. is_failed e \<longrightarrow> (\<exists>x. r = Inl x) \<and> last es = e)
        \<and> (r = Inr () \<longrightarrow>
             (\<forall>root. Print (RestoreCompleted bn root) \<in> set es
                      \<longleftrightarrow> rd = Some root \<and> (\<exists>e \<in> set es. is_download e))
           \<and> (Print (RestoreNotFound bd bn) \<in> set es
                \<longleftrightarrow> map_of (buckets w) bn \<noteq> None \<and> \<not> (\<exists>e \<in> set es. is_download e)))"
proof (cases "map_of (buckets w) bn")
  case None
  with assms have "r = Inr ()" "w' = emit (Print (InvalidBucket bn)) w"
    by (simp_all add: restore_def)
  then show ?thesis
    using None by (intro exI [of _ "[Print (InvalidBucket bn)]"]) auto
next
  case (Some objs)
  let ?keys = "list_objects objs bd"
  obtain r1 w1 where loop: "restore_objects rd bn bd ?keys False w = (r1, w1)"
    by (cases "restore_objects rd bn bd ?keys False w")
  from restore_objects_run [OF loop] obtain es where es:
    "trace w1 = trace w @ es" "same_store w w1"
    "\<forall>e \<in> set es. restore_event bn ?keys e"
    "\<forall>e \<in> set es. is_failed e \<longrightarrow> (\<exists>x. r1 = Inl x) \<and> last es = e"
    "\<forall>s'. r1 = Inr s' \<longrightarrow> s' = (\<exists>e \<in> set es. is_download e)"
    by auto
  from es(3) have noprint: "\<And>m. Print m \<notin> set es"
    by (metis restore_event.simps(4))
  show ?thesis
  proof (cases r1)
    case (Inl x)
    with assms Some loop have "r = Inl x" "w' = w1" by (simp_all add: restore_def)
    with es Inl show ?thesis by (intro exI [of _ es]) auto
  next
    case (Inr s')
    with es have s': "s' = (\<exists>e \<in> set es. is_download e)"
      and clean: "\<forall>e \<in> set es. \<not> is_failed e"
      by auto
    show ?thesis
    proof (cases s')
      case False
      with assms Some loop Inr
      have "r = Inr ()" "w' = emit (Print (RestoreNotFound bd bn)) w1"
        by (simp_all add: restore_def)
      with es(1,2) clean s' False noprint Some show ?thesis
        by (intro exI [of _ "es @ [Print (RestoreNotFound bd bn)]"]) auto
    next
      case True
      show ?thesis
      proof (cases rd)
        case None
        with assms Some loop Inr True have "r = Inl TypeError" "w' = w1"
          by (simp_all add: restore_def)
        with es(1,2) clean show ?thesis by (intro exI [of _ es]) auto
      next
        case (Some root)
        with assms \<open>map_of (buckets w) bn = Some objs\<close> loop Inr True
        have "r = Inr ()" "w' = emit (Print (RestoreCompleted bn root)) w1"
          by (simp_all add: restore_def)
        with es(1,2) clean s' True noprint Some \<open>map_of (buckets w) bn = Some objs\<close>
        show ?thesis
          by (intro exI [of _ "es @ [Print (RestoreCompleted bn root)]"]) auto
      qed
    qed
  qed
qed

section \<open>Files met by the walk\<close>

lemma walk_files_simps [simp]:
  "walk_files [] = []"
  "walk_files ((d, s, fs) # walked) = map (\<lambda>f. (d, f)) fs @ walk_files walked"
  "walk_files (xs @ ys) = walk_files xs @ walk_files ys"
  by (simp_all add: walk_files_def)

lemma walk_files_concat: "walk_files (concat xss) = concat (map walk_files xss)"
  by (induction xss) simp_all

lemma files_under_nonempty: "segs \<in> set (files_under n) \<Longrightarrow> segs \<noteq> []"
  by (cases n) auto

lemma walk_files_walk:
  "walk_files (walk top_dir n)
     = map (\<lambda>segs. (foldl os_path_join top_dir (butlast segs), last segs)) (files_under n)"
proof (induction top_dir n rule: walk.induct)
  case (1 top_dir t)
  then show ?case by simp
next
  case (2 top_dir t)
  then show ?case by simp
next
  case (3 top_dir t es)
  have sub: "walk_files (walk (os_path_join top_dir (fst e)) (snd e))
               = map (\<lambda>segs. (foldl os_path_join top_dir (butlast segs), last segs))
                   (map ((#) (fst e)) (files_under (snd e)))"
    if "e \<in> set es" for e
    using "3.IH" [OF that] files_under_nonempty [of _ "snd e"]
    by (auto simp: comp_def)
  have "concat (map (\<lambda>e. walk_files (walk (os_path_join top_dir (fst e)) (snd e))) es)
          = concat (map (\<lambda>e. map (\<lambda>segs. (foldl os_path_join top_dir (butlast segs), last segs))
                              (map ((#) (fst e)) (files_under (snd e)))) es)"
    using sub by (intro arg_cong [where f = concat] map_cong) auto
  then show ?case
    by (simp add: walk_files_concat comp_def map_concat)
qed

lemma walk_nonempty: "walk top_dir (Dir t es) \<noteq> []"
  by simp

lemma walk_no_files:
  "files_under n = [] \<Longrightarrow> x \<in> set (walk top_dir n) \<Longrightarrow> snd (snd x) = []"
proof (induction top_dir n arbitrary: x rule: walk.induct)
  case (1 top_dir t)
  then show ?case by simp
next
  case (2 top_dir t)
  then show ?case by simp
next
  case (3 top_dir t es)
  from "3.prems"(1) have nofile: "filter (\<lambda>e. \<not> is_dir (snd e)) es = []"
    and sub: "\<And>e. e \<in> set es \<Longrightarrow> files_under (snd e) = []"
    by auto
  from "3.prems"(2) nofile consider "x = (top_dir, map fst (filter (\<lambda>e. is_dir (snd e)) es), [])"
    | e where "e \<in> set es" "x \<in> set (walk (os_path_join top_dir (fst e)) (snd e))"
    by auto
  then show ?case
  proof cases
    case 1
    then show ?thesis by simp
  next
    case 2
    from "3.IH" [OF 2(1) sub [OF 2(1)] 2(2)] show ?thesis .
  qed
qed

lemma back_up_dirs_no_files:
  "\<forall>x \<in> set walked. snd (snd x) = [] \<Longrightarrow>
   back_up_dirs bn bd walked s w
     = (Inr (s \<or> walked \<noteq> []),
        w\<lparr>trace := trace w @ map (\<lambda>x. Print (FoundDirectory (fst x))) walked\<rparr>)"
proof (induction walked arbitrary: s w)
  case Nil
  then show ?case by simp
next
  case (Cons x walked)
  obtain d subs fs where x: "x = (d, subs, fs)" by (cases x)
  with Cons.prems have "fs = []" by simp
  with Cons x show ?case by (simp add: emit_def)
qed

section \<open>Paths made of plain names\<close>

lemma endswith_slash: "endswith s ''/'' \<longleftrightarrow> s \<noteq> [] \<and> last s = CHR ''/''"
proof (cases s rule: rev_cases)
  case Nil
  then show ?thesis by (simp add: endswith_def)
next
  case (snoc ys y)
  then show ?thesis by (auto simp: endswith_def)
qed

lemma startswith_slash: "startswith s ''/'' \<longleftrightarrow> s \<noteq> [] \<and> hd s = CHR ''/''"
  by (cases s) (auto simp: startswith_def)

lemma os_path_join_name:
  assumes "a \<noteq> []" "\<not> endswith a ''/''" "s \<noteq> []" "CHR ''/'' \<notin> set s"
  shows "os_path_join a s = a @ ''/'' @ s"
    and "\<not> endswith (os_path_join a s) ''/''"
proof -
  from assms(3,4) have "hd s \<noteq> CHR ''/''" by (cases s) auto
  with assms show "os_path_join a s = a @ ''/'' @ s"
    by (simp add: os_path_join_def startswith_slash)
  moreover from assms(3,4) have "last s \<noteq> CHR ''/''"
    by (metis last_in_set)
  ultimately show "\<not> endswith (os_path_join a s) ''/''"
    using assms(3) by (simp add: endswith_slash)
qed

lemma foldl_join_names:
  assumes "a \<noteq> []" "\<not> endswith a ''/''" "segs \<noteq> []"
    and "\<forall>s \<in> set segs. s \<noteq> [] \<and> CHR ''/'' \<notin> set s"
  shows "foldl os_path_join a segs = a @ ''/'' @ sep_join segs"
  using assms
proof (induction segs arbitrary: a)
  case Nil
  then show ?case by simp
next
  case (Cons s segs)
  then have s: "s \<noteq> []" "CHR ''/'' \<notin> set s" by simp_all
  note j = os_path_join_name [OF Cons.prems(1,2) s]
  show ?case
  proof (cases segs)
    case Nil
    with j show ?thesis by simp
  next
    case (Cons s' segs')
    have "foldl os_path_join (os_path_join a s) segs = os_path_join a s @ ''/'' @ sep_join segs"
      using Cons.IH [of "os_path_join a s"] j Cons.prems(4) Cons by simp
    with j Cons show ?thesis by simp
  qed
qed

lemma split_slash_no_slash:
  "CHR ''/'' \<notin> set s \<Longrightarrow> split_slash acc (s @ rest) = split_slash (acc @ s) rest"
  by (induction s arbitrary: acc) auto

lemma split_slash_sep_join:
  "zs \<noteq> [] \<Longrightarrow> \<forall>z \<in> set zs. CHR ''/'' \<notin> set z \<Longrightarrow>
   split_slash acc (sep_join zs) = (acc @ hd zs) # tl zs"
proof (induction zs arbitrary: acc rule: sep_join.induct)
  case 1
  then show ?case by simp
next
  case (2 x)
  then show ?case using split_slash_no_slash [of x acc "[]"] by simp
next
  case (3 x y zs)
  then show ?case using split_slash_no_slash [of x acc "CHR ''/'' # sep_join (y # zs)"] by simp
qed

lemma sep_join_append:
  "xs \<noteq> [] \<Longrightarrow> ys \<noteq> [] \<Longrightarrow> sep_join (xs @ ys) = sep_join xs @ ''/'' @ sep_join ys"
proof (induction xs rule: sep_join.induct)
  case 1
  then show ?case by simp
next
  case (2 x)
  then show ?case by (cases ys) simp_all
next
  case (3 x y zs)
  then show ?case by simp
qed

lemma hd_not_member: "s \<noteq> [] \<Longrightarrow> c \<notin> set s \<Longrightarrow> hd s \<noteq> c"
  by (cases s) auto

lemma sep_join_ends:
  assumes "zs \<noteq> []" "\<forall>z \<in> set zs. z \<noteq> [] \<and> CHR ''/'' \<notin> set z"
  shows "sep_join zs \<noteq> []" "hd (sep_join zs) \<noteq> CHR ''/''" "last (sep_join zs) \<noteq> CHR ''/''"
proof -
  from assms show "sep_join zs \<noteq> []" by (cases zs rule: sep_join.cases) auto
  from assms show "hd (sep_join zs) \<noteq> CHR ''/''"
    by (cases zs rule: sep_join.cases) (auto simp: hd_append dest: hd_not_member)
  from assms show "last (sep_join zs) \<noteq> CHR ''/''"
  proof (induction zs rule: sep_join.induct)
    case 1
    then show ?case by simp
  next
    case (2 x)
    then show ?case by (metis sep_join.simps(2) last_in_set list.set_intros(1))
  next
    case (3 x y zs)
    then have "sep_join (y # zs) \<noteq> []" by (cases zs) auto
    with 3 show ?case by simp
  qed
qed

lemma normpath_step_plain:
  "\<forall>z \<in> set zs. plain_name z \<Longrightarrow> foldl (normpath_step b) acc zs = acc @ zs"
  by (induction zs arbitrary: acc) (auto simp: normpath_step_def plain_name_def)

lemma plain_names_no_slash:
  "\<forall>z \<in> set zs. plain_name z \<Longrightarrow> \<forall>z \<in> set zs. z \<noteq> [] \<and> CHR ''/'' \<notin> set z"
  by (simp add: plain_name_def)

lemma normpath_absolute_plain:
  assumes "zs \<noteq> []" "\<forall>z \<in> set zs. plain_name z"
  shows "normpath (''/'' @ sep_join zs) = ''/'' @ sep_join zs"
proof -
  note ends = sep_join_ends [OF assms(1) plain_names_no_slash [OF assms(2)]]
  have split: "split_slash [] (''/'' @ sep_join zs) = [] # zs"
    using split_slash_sep_join [OF assms(1), of "[]"] plain_names_no_slash [OF assms(2)] assms(1)
    by simp
  have fold: "foldl (normpath_step True) [] ([] # zs) = zs"
    using normpath_step_plain [OF assms(2), of True "[]"] by (simp add: normpath_step_def)
  have "\<not> startswith (''/'' @ sep_join zs) ''//''"
    using ends by (cases "sep_join zs") (auto simp: startswith_def)
  then show ?thesis
    using split fold by (simp add: normpath_def Let_def startswith_def)
qed

lemma abs_comps_plain:
  assumes "\<forall>c \<in> set cs. plain_name c" "ys \<noteq> []" "\<forall>y \<in> set ys. plain_name y"
  shows "abs_comps (''/'' @ sep_join cs) (sep_join ys) = cs @ ys"
proof -
  note yends = sep_join_ends [OF assms(2) plain_names_no_slash [OF assms(3)]]
  have rel: "\<not> startswith (sep_join ys) ''/''"
    using yends by (simp add: startswith_slash)
  have joined: "os_path_join (''/'' @ sep_join cs) (sep_join ys) = ''/'' @ sep_join (cs @ ys)"
  proof (cases "cs = []")
    case True
    then show ?thesis using rel by (simp add: os_path_join_def endswith_slash)
  next
    case False
    from sep_join_ends [OF False plain_names_no_slash [OF assms(1)]]
    have "\<not> endswith (''/'' @ sep_join cs) ''/''" by (simp add: endswith_slash)
    then show ?thesis
      using rel False assms(2) by (simp add: os_path_join_def sep_join_append)
  qed
  have zs: "cs @ ys \<noteq> []" "\<forall>z \<in> set (cs @ ys). plain_name z"
    using assms by auto
  have "abspath (''/'' @ sep_join cs) (sep_join ys) = ''/'' @ sep_join (cs @ ys)"
    using rel joined normpath_absolute_plain [OF zs] by (simp add: abspath_def)
  moreover have "split_slash [] (''/'' @ sep_join (cs @ ys)) = [] # cs @ ys"
    using split_slash_sep_join [OF zs(1), of "[]"] plain_names_no_slash [OF zs(2)] zs(1)
    by simp
  moreover have "filter (\<lambda>x. x \<noteq> []) (cs @ ys) = cs @ ys"
    using zs(2) by (auto simp: plain_name_def filter_id_conv)
  ultimately show ?thesis by (simp add: abs_comps_def)
qed

lemma commonprefix_append: "commonprefix xs (xs @ ys) = xs"
  by (induction xs) simp_all

lemma relpath_strips_prefix:
  assumes "\<forall>c \<in> set cs. plain_name c"
    and "xs \<noteq> []" "\<forall>x \<in> set xs. plain_name x"
    and "qs \<noteq> []" "\<forall>q \<in> set qs. plain_name q"
  shows "os_path_relpath (''/'' @ sep_join cs) (sep_join xs @ ''/'' @ sep_join qs) (sep_join xs)
           = Inr (sep_join qs)"
proof -
  have key: "sep_join xs @ ''/'' @ sep_join qs = sep_join (xs @ qs)"
    using assms(2,4) by (simp add: sep_join_append)
  have xq: "xs @ qs \<noteq> []" "\<forall>z \<in> set (xs @ qs). plain_name z"
    using assms by auto
  have start: "abs_comps (''/'' @ sep_join cs) (sep_join xs) = cs @ xs"
    using abs_comps_plain [OF assms(1,2,3)] .
  have path: "abs_comps (''/'' @ sep_join cs) (sep_join (xs @ qs)) = (cs @ xs) @ qs"
    using abs_comps_plain [OF assms(1) xq] by simp
  have nonempty: "sep_join (xs @ qs) \<noteq> []"
    using sep_join_ends(1) [OF xq(1) plain_names_no_slash [OF xq(2)]] .
  have cp: "commonprefix (cs @ xs) (cs @ xs @ qs) = cs @ xs"
    using commonprefix_append [of "cs @ xs" qs] by simp
  show ?thesis
    unfolding key os_path_relpath_def start path
    using nonempty assms(4) by (simp add: Let_def cp)
qed

lemma replace_backslash_id: "CHR 0x5C \<notin> set s \<Longrightarrow> replace_backslash s = s"
  by (induction s) (auto simp: replace_backslash_def)

lemma set_sep_join: "set (sep_join zs) \<subseteq> insert (CHR ''/'') (\<Union> (set ` set zs))"
  by (induction zs rule: sep_join.induct) auto

lemma replace_backslash_plain:
  assumes "\<forall>z \<in> set zs. plain_name z"
  shows "replace_backslash (sep_join zs) = sep_join zs"
proof -
  have "CHR 0x5C \<notin> set (sep_join zs)"
    using set_sep_join [of zs] assms by (auto simp: plain_name_def)
  then show ?thesis by (rule replace_backslash_id)
qed

section \<open>Directories created by \<^verbatim>\<open>os.makedirs\<close>\<close>

lemma same_kind_refl [simp]: "same_kind n n"
  by (cases n) simp_all

lemma same_kind_trans: "same_kind a b \<Longrightarrow> same_kind b c \<Longrightarrow> same_kind a c"
  by (cases a; cases b; cases c) simp_all

lemma same_kind_dir: "same_kind n n' \<Longrightarrow> is_dir n' = is_dir n"
  by (cases n; cases n') simp_all

lemma grows_refl [simp]: "grows tree tree"
  by (simp add: grows_def)

lemma grows_trans: "grows a b \<Longrightarrow> grows b c \<Longrightarrow> grows a c"
  unfolding grows_def by (meson same_kind_trans)

lemma grows_lookup:
  "grows tree tree' \<Longrightarrow> lookup_node tree p \<noteq> None \<Longrightarrow> lookup_node tree' p \<noteq> None"
  unfolding grows_def by fastforce

lemma grows_lookup_Some:
  "grows tree tree' \<Longrightarrow> lookup_node tree p = Some n \<Longrightarrow> \<exists>n'. lookup_node tree' p = Some n'"
  unfolding grows_def by blast

lemma grows_dir_at: "grows tree tree' \<Longrightarrow> dir_at tree cur \<Longrightarrow> dir_at tree' cur"
  unfolding grows_def dir_at_def
  by (fastforce simp: same_kind_dir split: option.splits)

lemma grows_open_at: "grows tree tree' \<Longrightarrow> open_at tree cur \<Longrightarrow> open_at tree' cur"
proof -
  assume g: "grows tree tree'" and o: "open_at tree cur"
  from o obtain t es where "lookup_node tree cur = Some (Dir t es)"
    by (auto simp: open_at_def split: option.splits node.splits)
  with g obtain n' where "lookup_node tree' cur = Some n'" "same_kind (Dir t es) n'"
    unfolding grows_def by blast
  then show ?thesis by (cases n') (simp_all add: open_at_def)
qed

lemma resolve_grows:
  "resolve tree cur steps = Some c \<Longrightarrow> grows tree tree' \<Longrightarrow> resolve tree' cur steps = Some c"
proof (induction steps arbitrary: cur)
  case Nil
  then show ?case by simp
next
  case (Cons s steps)
  from Cons.prems show ?case
    by (auto simp: grows_dir_at grows_open_at Cons.IH dest: grows_lookup_Some split: if_splits)
qed

lemma lookup_node_append:
  "lookup_node tree (p @ q) = (case lookup_node tree p of None \<Rightarrow> None | Some n \<Rightarrow> lookup_node n q)"
proof (induction p arbitrary: tree)
  case Nil
  then show ?case by simp
next
  case (Cons a p)
  then show ?case by (cases tree) (auto split: option.splits)
qed

lemma lookup_node_butlast:
  "lookup_node tree cur \<noteq> None \<Longrightarrow> lookup_node tree (butlast cur) \<noteq> None"
proof (cases cur rule: rev_cases)
  case Nil
  then show ?thesis by simp
next
  case (snoc ys y)
  assume "lookup_node tree cur \<noteq> None"
  with snoc show ?thesis by (auto simp: lookup_node_append split: option.splits)
qed

lemma put_entry_new:
  "open_at tree cur \<Longrightarrow> lookup_node tree (cur @ [c]) = None \<Longrightarrow>
     grows tree (put_entry now cur c new tree)
   \<and> lookup_node (put_entry now cur c new tree) (cur @ [c]) = Some new"
proof (induction cur arbitrary: tree)
  case Nil
  then obtain t es where tree: "tree = Dir t es"
    by (cases tree) (auto simp: open_at_def)
  with Nil have none: "map_of es c = None" by (auto split: option.splits)
  have "grows tree (put_entry now [] c new tree)"
    unfolding grows_def
  proof (intro allI impI)
    fix p n assume look: "lookup_node tree p = Some n"
    show "\<exists>n'. lookup_node (put_entry now [] c new tree) p = Some n' \<and> same_kind n n'"
    proof (cases p)
      case Nil
      with look tree show ?thesis by auto
    next
      case (Cons q qs)
      with look tree none have "q \<noteq> c" by (auto split: option.splits)
      with look tree Cons show ?thesis by (auto simp: update_conv' split: option.splits)
    qed
  qed
  moreover have "lookup_node (put_entry now [] c new tree) ([] @ [c]) = Some new"
    using tree by (simp add: update_conv')
  ultimately show ?case by blast
next
  case (Cons d ds)
  then obtain t es where tree: "tree = Dir t es"
    by (cases tree) (auto simp: open_at_def)
  with Cons.prems(1) obtain m where m: "map_of es d = Some m" "open_at m ds"
    by (auto simp: open_at_def split: option.splits)
  from Cons.prems(2) tree m have "lookup_node m (ds @ [c]) = None" by simp
  from Cons.IH [OF m(2) this]
  have ih: "grows m (put_entry now ds c new m)"
    "lookup_node (put_entry now ds c new m) (ds @ [c]) = Some new"
    by simp_all
  let ?tree' = "put_entry now (d # ds) c new tree"
  have tree': "?tree' = Dir t (AList.update d (put_entry now ds c new m) es)"
    using tree m by simp
  have "grows tree ?tree'"
    unfolding grows_def
  proof (intro allI impI)
    fix p n assume look: "lookup_node tree p = Some n"
    show "\<exists>n'. lookup_node ?tree' p = Some n' \<and> same_kind n n'"
    proof (cases p)
      case Nil
      with look tree tree' show ?thesis by auto
    next
      case p: (Cons q qs)
      show ?thesis
      proof (cases "q = d")
        case True
        with look tree m p have "lookup_node m qs = Some n" by simp
        with ih(1) obtain n' where "lookup_node (put_entry now ds c new m) qs = Some n'"
          "same_kind n n'" unfolding grows_def by blast
        with True p tree' show ?thesis by (simp add: update_conv')
      next
        case False
        with look tree p tree' show ?thesis by (auto simp: update_conv')
      qed
    qed
  qed
  moreover have "lookup_node ?tree' ((d # ds) @ [c]) = Some new"
    using tree' ih(2) by (simp add: update_conv')
  ultimately show ?case by blast
qed

lemma make_steps_grows:
  "make_steps now cur created steps tree = (tree', ok) \<Longrightarrow> lookup_node tree cur \<noteq> None \<Longrightarrow>
     grows tree tree'
   \<and> (ok \<longrightarrow> (\<exists>c'. resolve tree' cur steps = Some c' \<and> lookup_node tree' c' \<noteq> None))"
proof (induction steps arbitrary: cur created tree)
  case Nil
  then show ?case by simp
next
  case (Cons c cs)
  note run = Cons.prems(1) and here = Cons.prems(2)
  consider (fail) "tree' = tree" "\<not> ok"
    | (stay) created' where "dir_at tree cur" "c = [] \<or> (open_at tree cur \<and> c = ''.'')"
        "make_steps now cur created' cs tree = (tree', ok)"
    | (up) "c \<noteq> []" "open_at tree cur" "c = ''..''"
        "make_steps now (butlast cur) False cs tree = (tree', ok)"
    | (enter) "c \<noteq> []" "c \<noteq> ''.''" "c \<noteq> ''..''" "open_at tree cur"
        "lookup_node tree (cur @ [c]) \<noteq> None"
        "make_steps now (cur @ [c]) False cs tree = (tree', ok)"
    | (make) "c \<noteq> []" "c \<noteq> ''.''" "c \<noteq> ''..''" "open_at tree cur"
        "lookup_node tree (cur @ [c]) = None"
        "make_steps now (cur @ [c]) True cs (put_entry now cur c (Dir now []) tree) = (tree', ok)"
    using run
    by (auto simp: dir_at_def open_at_def split: if_splits option.splits node.splits)
  then show ?case
  proof cases
    case fail
    then show ?thesis by simp
  next
    case stay
    from Cons.IH [OF stay(3) here] have ih: "grows tree tree'"
      "ok \<longrightarrow> (\<exists>c'. resolve tree' cur cs = Some c' \<and> lookup_node tree' c' \<noteq> None)"
      by simp_all
    from stay(1,2) ih(1) have "resolve tree' cur (c # cs) = resolve tree' cur cs"
      by (auto simp: grows_dir_at grows_open_at)
    with ih show ?thesis by simp
  next
    case up
    from Cons.IH [OF up(4) lookup_node_butlast [OF here]] have ih: "grows tree tree'"
      "ok \<longrightarrow> (\<exists>c'. resolve tree' (butlast cur) cs = Some c' \<and> lookup_node tree' c' \<noteq> None)"
      by simp_all
    from up(1-3) ih(1) have "resolve tree' cur (c # cs) = resolve tree' (butlast cur) cs"
      by (simp add: grows_open_at)
    with ih show ?thesis by simp
  next
    case enter
    from Cons.IH [OF enter(6,5)] have ih: "grows tree tree'"
      "ok \<longrightarrow> (\<exists>c'. resolve tree' (cur @ [c]) cs = Some c' \<and> lookup_node tree' c' \<noteq> None)"
      by simp_all
    from enter(1-5) ih(1) have "resolve tree' cur (c # cs) = resolve tree' (cur @ [c]) cs"
      by (simp add: grows_open_at grows_lookup)
    with ih show ?thesis by simp
  next
    case make
    let ?tree1 = "put_entry now cur c (Dir now []) tree"
    from put_entry_new [OF make(4,5), of now "Dir now []"]
    have one: "grows tree ?tree1" "lookup_node ?tree1 (cur @ [c]) = Some (Dir now [])"
      by simp_all
    from one(2) have "lookup_node ?tree1 (cur @ [c]) \<noteq> None" by simp
    from Cons.IH [OF make(6) this] have ih: "grows ?tree1 tree'"
      "ok \<longrightarrow> (\<exists>c'. resolve tree' (cur @ [c]) cs = Some c' \<and> lookup_node tree' c' \<noteq> None)"
      by simp_all
    from one(1) ih(1) have g: "grows tree tree'" by (rule grows_trans)
    from one(2) ih(1) have "lookup_node tree' (cur @ [c]) \<noteq> None"
      by (auto dest: grows_lookup_Some)
    with make(1-4) g have "resolve tree' cur (c # cs) = resolve tree' (cur @ [c]) cs"
      by (auto simp: grows_open_at)
    with ih g show ?thesis by simp
  qed
qed

lemma stat_grows:
  assumes "grows (fs_root w) (fs_root w')" "cwd w' = cwd w" "os_path_exists w p"
  shows "os_path_exists w' p"
proof -
  from assms(3) obtain c where c: "p \<noteq> []"
    "resolve (fs_root w) [] (path_steps (cwd w) p) = Some c" "lookup_node (fs_root w) c \<noteq> None"
    by (auto simp: os_path_exists_def stat_def split: if_splits option.splits)
  from resolve_grows [OF c(2) assms(1)] grows_lookup [OF assms(1) c(3)] c(1) assms(2)
  show ?thesis by (auto simp: os_path_exists_def stat_def)
qed

lemma os_makedirs_grows:
  assumes "os_makedirs name w = (r, w')"
  shows "grows (fs_root w) (fs_root w')"
  using assms make_steps_grows [of "local_clock w" "[]" False "path_steps (cwd w) name" "fs_root w"]
  by (auto simp: os_makedirs_def emit_def split: if_splits prod.splits bool.splits)

lemma os_makedirs_exists:
  assumes "os_makedirs name w = (Inr u, w')"
  shows "os_path_exists w' name \<and> (\<forall>p. os_path_exists w p \<longrightarrow> os_path_exists w' p)"
proof -
  from assms obtain n where n: "name \<noteq> []"
    "make_steps (local_clock w) [] False (path_steps (cwd w) name) (fs_root w) = (n, True)"
    "w' = emit (MakeDirs name) (w\<lparr>fs_root := n\<rparr>)"
    by (auto simp: os_makedirs_def split: if_splits prod.splits bool.splits)
  from make_steps_grows [OF n(2)] obtain c' where c': "grows (fs_root w) n"
    "resolve n [] (path_steps (cwd w) name) = Some c'" "lookup_node n c' \<noteq> None"
    by auto
  from c'(2,3) n(1,3) have "os_path_exists w' name"
    by (auto simp: os_path_exists_def stat_def emit_def)
  moreover have "os_path_exists w' p" if "os_path_exists w p" for p
    using stat_grows [of w w' p] c'(1) n(3) that by (simp add: emit_def)
  ultimately show ?thesis by blast
qed

lemma marker_dirs_run:
  "marker_dirs w rd bd keys = Some dirs \<Longrightarrow>
     \<exists>w'. restore_objects rd bn bd keys s w = (Inr s, w')
         \<and> trace w' = trace w @ map MakeDirs dirs
         \<and> length dirs = length keys
         \<and> (\<forall>d \<in> set dirs. os_path_exists w' d)
         \<and> (\<forall>p. os_path_exists w p \<longrightarrow> os_path_exists w' p)"
proof (induction keys arbitrary: w dirs)
  case Nil
  then show ?case by simp
next
  case (Cons key keys)
  from Cons.prems obtain target u w1 rest where step:
    "key \<noteq> []" "last key = CHR ''/''"
    "target_of (cwd w) rd bd key = Inr target"
    "\<not> os_path_exists w (os_path_dirname target)"
    "os_makedirs (os_path_dirname target) w = (Inr u, w1)"
    "marker_dirs w1 rd bd keys = Some rest"
    "dirs = os_path_dirname target # rest"
    by (auto split: if_splits sum.splits prod.splits)
  from Cons.IH [OF step(6)] obtain w' where w':
    "restore_objects rd bn bd keys s w1 = (Inr s, w')"
    "trace w' = trace w1 @ map MakeDirs rest"
    "length rest = length keys"
    "\<forall>d \<in> set rest. os_path_exists w' d"
    "\<forall>p. os_path_exists w1 p \<longrightarrow> os_path_exists w' p"
    by blast
  from os_makedirs_run [OF step(5)]
  have t1: "trace w1 = trace w @ [MakeDirs (os_path_dirname target)]" by auto
  note ex = os_makedirs_exists [OF step(5)]
  have "restore_objects rd bn bd (key # keys) s w = (Inr s, w')"
    using step w'(1) by (simp add: prepare_target_def)
  moreover have "trace w' = trace w @ map MakeDirs dirs"
    using t1 w'(2) step(7) by simp
  moreover have "\<forall>d \<in> set dirs. os_path_exists w' d"
    using step(7) w'(4,5) ex by auto
  moreover have "\<forall>p. os_path_exists w p \<longrightarrow> os_path_exists w' p"
    using w'(5) ex by blast
  ultimately show ?case using w'(3) step(7) by (intro exI [of _ w']) simp
qed

section \<open>Files that are up to date\<close>

lemma stat_trace_update [simp]: "stat (w\<lparr>trace := es\<rparr>) p = stat w p"
  by (simp add: stat_def cong: option.case_cong)

lemma os_path_getmtime_trace_update [simp]:
  "os_path_getmtime (w\<lparr>trace := es\<rparr>) p = os_path_getmtime w p"
  by (simp add: os_path_getmtime_def)

lemma last_modified_trace_update [simp]:
  "last_modified (w\<lparr>trace := es\<rparr>) b k = last_modified w b k"
  by (simp add: last_modified_def cong: option.case_cong)

lemma not_up_to_date_trace_update [simp]:
  "not_up_to_date (w\<lparr>trace := es\<rparr>) p s = not_up_to_date w p s"
  by (simp add: not_up_to_date_def cong: sum.case_cong)

lemma os_walk_trace_update [simp]: "os_walk (w\<lparr>trace := es\<rparr>) d = os_walk w d"
  by (simp add: os_walk_def)

lemma up_to_date_trace_update [simp]:
  "up_to_date (w\<lparr>trace := es\<rparr>) bn bd x = up_to_date w bn bd x"
  by (simp add: up_to_date_def)

lemma not_up_to_date_emit [simp]: "not_up_to_date (emit e w) p s = not_up_to_date w p s"
  by (simp add: emit_def)

lemma up_to_date_emit [simp]: "up_to_date (emit e w) bn bd x = up_to_date w bn bd x"
  by (simp add: emit_def)

lemma os_path_getmtime_same_host:
  "same_host w w' \<Longrightarrow> os_path_getmtime w' p = os_path_getmtime w p"
  using stat_same_host [of w w' p] by (simp add: os_path_getmtime_def)

lemma os_walk_same_host: "same_host w w' \<Longrightarrow> os_walk w' d = os_walk w d"
  using stat_same_host [of w w' d] by (simp add: os_walk_def)

lemma clock_ok_same_host: "same_host w w' \<Longrightarrow> clock_ok w' bd x = clock_ok w bd x"
  using os_path_getmtime_same_host [of w w' "full_path_of (fst x) (snd x)"]
  by (simp add: clock_ok_def same_host_def Let_def cong: sum.case_cong)

lemma not_up_to_date_False:
  "not_up_to_date w p (b, k) = Inr False
     \<longleftrightarrow> (\<exists>t' t. last_modified w b k = Inr t' \<and> os_path_getmtime w p = Inr t \<and> t \<le> t')"
  by (auto simp: not_up_to_date_def split: sum.splits exn.splits)

lemma upload_file_last_modified:
  assumes "upload_file b p k w = (Inr u, w')" "head_fails w k2 = None"
  shows "last_modified w' b k2 = (if k2 = k then Inr (store_clock w k) else last_modified w b k2)"
  using assms
  by (auto simp: upload_file_def last_modified_def update_conv'
           split: option.splits node.splits if_splits)

lemma upload_file_readable:
  assumes "upload_file b p k w = (Inr u, w')"
  shows "\<exists>t. os_path_getmtime w p = Inr t"
  using assms
  by (auto simp: upload_file_def os_path_getmtime_def split: option.splits node.splits if_splits)

lemma upload_file_up_to_date:
  assumes up: "upload_file bn (full_path_of d f) (s3_full_path_of bd (full_path_of d f)) w = (Inr u, w')"
  shows "clock_ok w bd (d, f) \<Longrightarrow> up_to_date w' bn bd (d, f)"
    and "clock_ok w bd x \<Longrightarrow> up_to_date w bn bd x \<Longrightarrow> up_to_date w' bn bd x"
proof -
  from upload_file_run [OF up] have host: "same_host w w'" by simp
  note mt = os_path_getmtime_same_host [OF host]
  from upload_file_readable [OF up] obtain t where t: "os_path_getmtime w (full_path_of d f) = Inr t"
    by blast
  show "up_to_date w' bn bd (d, f)" if "clock_ok w bd (d, f)"
    using that t upload_file_last_modified [OF up, of "s3_full_path_of bd (full_path_of d f)"] mt
    by (simp add: clock_ok_def up_to_date_def not_up_to_date_False Let_def)
  show "up_to_date w' bn bd x" if "clock_ok w bd x" "up_to_date w bn bd x"
    using that upload_file_last_modified [OF up, of "s3_full_path_of bd (full_path_of (fst x) (snd x))"] mt
    by (auto simp: clock_ok_def up_to_date_def not_up_to_date_False Let_def)
qed

lemma back_up_files_first_run:
  "back_up_files bn bd d files w = (Inr u, w') \<Longrightarrow>
   \<forall>f \<in> set files. clock_ok w bd (d, f) \<Longrightarrow>
     (\<forall>f \<in> set files. up_to_date w' bn bd (d, f))
   \<and> (\<forall>x. clock_ok w bd x \<and> up_to_date w bn bd x \<longrightarrow> up_to_date w' bn bd x)"
proof (induction files arbitrary: w)
  case Nil
  then show ?case by simp
next
  case (Cons f files)
  let ?w1 = "emit (Print (Uploading f)) w"
  let ?p = "full_path_of d f"
  let ?k = "s3_full_path_of bd ?p"
  have step: "\<exists>wn. back_up_files bn bd d files wn = (Inr u, w') \<and> same_host w wn
                \<and> up_to_date wn bn bd (d, f)
                \<and> (\<forall>x. clock_ok w bd x \<and> up_to_date w bn bd x \<longrightarrow> up_to_date wn bn bd x)"
  proof (cases "not_up_to_date ?w1 ?p (bn, ?k)")
    case (Inl x)
    with Cons.prems(1) show ?thesis by (simp add: Let_def)
  next
    case (Inr changed)
    show ?thesis
    proof (cases changed)
      case False
      with Inr Cons.prems(1)
      have "back_up_files bn bd d files (emit (Print (UpToDate f)) ?w1) = (Inr u, w')"
        by (simp add: Let_def)
      moreover from Inr False have "up_to_date w bn bd (d, f)"
        by (simp add: up_to_date_def)
      ultimately show ?thesis
        by (intro exI [of _ "emit (Print (UpToDate f)) ?w1"]) simp
    next
      case True
      obtain r2 w2 where up: "upload_file bn ?p ?k ?w1 = (r2, w2)"
        by (cases "upload_file bn ?p ?k ?w1")
      with True Inr Cons.prems(1) obtain u2 where r2: "r2 = Inr u2"
        and rest: "back_up_files bn bd d files (emit (Print (Uploaded f)) w2) = (Inr u, w')"
        by (cases r2) (auto simp: Let_def)
      from upload_file_run [OF up] have host: "same_host w w2" by simp
      have ok: "clock_ok ?w1 bd x = clock_ok w bd x" for x
        by (rule clock_ok_same_host) simp
      from Cons.prems(2) have "clock_ok ?w1 bd (d, f)" by (simp add: ok)
      from upload_file_up_to_date(1) [OF up [unfolded r2] this]
      have "up_to_date w2 bn bd (d, f)" .
      moreover have "up_to_date w2 bn bd x" if "clock_ok w bd x" "up_to_date w bn bd x" for x
        using upload_file_up_to_date(2) [OF up [unfolded r2], of x] that by (simp add: ok)
      ultimately show ?thesis
        using rest host by (intro exI [of _ "emit (Print (Uploaded f)) w2"]) simp
    qed
  qed
  then obtain wn where wn: "back_up_files bn bd d files wn = (Inr u, w')" "same_host w wn"
    "up_to_date wn bn bd (d, f)"
    "\<forall>x. clock_ok w bd x \<and> up_to_date w bn bd x \<longrightarrow> up_to_date wn bn bd x"
    by blast
  have ok: "clock_ok wn bd x = clock_ok w bd x" for x
    using wn(2) by (rule clock_ok_same_host)
  from Cons.prems(2) have "\<forall>f \<in> set files. clock_ok wn bd (d, f)" by (simp add: ok)
  from Cons.IH [OF wn(1) this]
  have ih: "\<forall>f \<in> set files. up_to_date w' bn bd (d, f)"
    "\<forall>x. clock_ok wn bd x \<and> up_to_date wn bn bd x \<longrightarrow> up_to_date w' bn bd x"
    by simp_all
  from ih(2) wn(3) Cons.prems(2) have "up_to_date w' bn bd (d, f)" by (simp add: ok)
  moreover from ih(2) wn(4) have "\<forall>x. clock_ok w bd x \<and> up_to_date w bn bd x \<longrightarrow> up_to_date w' bn bd x"
    by (simp add: ok)
  ultimately show ?case using ih(1) by simp
qed

lemma back_up_dirs_first_run:
  "back_up_dirs bn bd walked s w = (Inr s', w') \<Longrightarrow>
   \<forall>x \<in> set (walk_files walked). clock_ok w bd x \<Longrightarrow>
     (\<forall>x \<in> set (walk_files walked). up_to_date w' bn bd x)
   \<and> (\<forall>x. clock_ok w bd x \<and> up_to_date w bn bd x \<longrightarrow> up_to_date w' bn bd x)"
proof (induction walked arbitrary: s w)
  case Nil
  then show ?case by simp
next
  case (Cons y walked)
  obtain d subs files where y: "y = (d, subs, files)" by (cases y)
  let ?w0 = "emit (Print (FoundDirectory d)) w"
  obtain r1 w1 where files: "back_up_files bn bd d files ?w0 = (r1, w1)"
    by (cases "back_up_files bn bd d files ?w0")
  with Cons.prems(1) y obtain u where r1: "r1 = Inr u"
    and rest: "back_up_dirs bn bd walked True w1 = (Inr s', w')"
    by (cases r1) auto
  from back_up_files_run [OF files] have host: "same_host w w1" by auto
  have ok0: "clock_ok ?w0 bd x = clock_ok w bd x" for x
    by (rule clock_ok_same_host) simp
  have ok1: "clock_ok w1 bd x = clock_ok w bd x" for x
    using host by (rule clock_ok_same_host)
  from Cons.prems(2) y have "\<forall>f \<in> set files. clock_ok ?w0 bd (d, f)"
    by (auto simp: ok0)
  from back_up_files_first_run [OF files [unfolded r1] this]
  have one: "\<forall>f \<in> set files. up_to_date w1 bn bd (d, f)"
    "\<forall>x. clock_ok w bd x \<and> up_to_date w bn bd x \<longrightarrow> up_to_date w1 bn bd x"
    by (simp_all add: ok0)
  from Cons.prems(2) y have "\<forall>x \<in> set (walk_files walked). clock_ok w1 bd x"
    by (auto simp: ok1)
  from Cons.IH [OF rest this]
  have ih: "\<forall>x \<in> set (walk_files walked). up_to_date w' bn bd x"
    "\<forall>x. clock_ok w bd x \<and> up_to_date w1 bn bd x \<longrightarrow> up_to_date w' bn bd x"
    by (simp_all add: ok1)
  have "\<forall>f \<in> set files. up_to_date w' bn bd (d, f)"
    using one(1) ih(2) Cons.prems(2) y by auto
  with ih one(2) y show ?case by auto
qed

lemma back_up_files_second_run:
  "\<forall>f \<in> set files. up_to_date w bn bd (d, f) \<Longrightarrow>
   back_up_files bn bd d files w
     = (Inr (), w\<lparr>trace := trace w
          @ concat (map (\<lambda>f. [Print (Uploading f), Print (UpToDate f)]) files)\<rparr>)"
proof (induction files arbitrary: w)
  case Nil
  then show ?case by simp
next
  case (Cons f files)
  let ?w2 = "emit (Print (UpToDate f)) (emit (Print (Uploading f)) w)"
  from Cons.prems have "\<forall>f \<in> set files. up_to_date ?w2 bn bd (d, f)" by simp
  from Cons.IH [OF this] Cons.prems show ?case
    by (simp add: up_to_date_def Let_def emit_def)
qed

lemma back_up_dirs_second_run:
  "\<forall>x \<in> set (walk_files walked). up_to_date w bn bd x \<Longrightarrow>
   back_up_dirs bn bd walked s w
     = (Inr (s \<or> walked \<noteq> []),
        w\<lparr>trace := trace w @ concat (map unchanged_prints walked)\<rparr>)"
proof (induction walked arbitrary: s w)
  case Nil
  then show ?case by simp
next
  case (Cons y walked)
  obtain d subs files where y: "y = (d, subs, files)" by (cases y)
  let ?w0 = "emit (Print (FoundDirectory d)) w"
  let ?w1 = "?w0\<lparr>trace := trace ?w0
          @ concat (map (\<lambda>f. [Print (Uploading f), Print (UpToDate f)]) files)\<rparr>"
  from Cons.prems y have "\<forall>f \<in> set files. up_to_date ?w0 bn bd (d, f)" by auto
  from back_up_files_second_run [OF this]
  have files: "back_up_files bn bd d files ?w0 = (Inr (), ?w1)" .
  have same: "up_to_date ?w1 bn bd x = up_to_date w bn bd x" for x
    by simp
  from Cons.prems y have "\<forall>x \<in> set (walk_files walked). up_to_date ?w1 bn bd x"
    by (auto simp: same)
  from Cons.IH [OF this, of True] files y show ?case
    by (simp add: unchanged_prints_def emit_def)
qed

section \<open>The key of a backed-up file\<close>

lemma walk_files_member:
  "(d, subs, files) \<in> set walked \<Longrightarrow> f \<in> set files \<Longrightarrow> (d, f) \<in> set (walk_files walked)"
  by (force simp: walk_files_def)

lemma walk_event_UploadFile:
  assumes "walk_event bn bd walked (UploadFile b p k)"
  shows "b = bn \<and> (\<exists>x \<in> set (walk_files walked).
           p = full_path_of (fst x) (snd x) \<and> k = s3_full_path_of bd p)"
proof -
  from assms obtain d subs files f where "(d, subs, files) \<in> set walked" "f \<in> set files"
    "b = bn" "p = full_path_of d f" "k = s3_full_path_of bd (full_path_of d f)"
    by (auto simp: walk_event_def)
  then show ?thesis
    by (intro conjI bexI [of _ "(d, f)"]) (auto intro: walk_files_member)
qed

lemma full_path_of_segs:
  "segs \<noteq> [] \<Longrightarrow>
   full_path_of (foldl os_path_join top_dir (butlast segs)) (last segs)
     = replace_backslash (foldl os_path_join top_dir segs)"
proof -
  assume "segs \<noteq> []"
  then have "foldl os_path_join top_dir segs
               = foldl os_path_join top_dir (butlast segs @ [last segs])"
    by simp
  then show ?thesis by (simp add: full_path_of_def del: append_butlast_last_id)
qed

text \<open>
  Claim C1, as the code has it. Let the root name the node \<open>n\<close>. The keys that \<^verbatim>\<open>back_up\<close>
  computes, in the order of the walk, are: for every file below the root, reached by
  the names \<open>segs\<close>, the prefix, a slash, and the path obtained by joining the root itself
  with \<open>segs\<close>, backslashes turned into slashes. Every upload of a run has such a key,
  and the local path it reads is that joined path. Where the root is not empty and does
  not end in a slash, and the names are not empty and contain no slash, the joined path
  is the root, a slash, and the names separated by slashes: the key holds the root path,
  not only the path relative to it.
\<close>

theorem back_up_keys:
  assumes "stat w root_dir = Some n"
  shows "map (\<lambda>x. s3_full_path_of bucket_dir (full_path_of (fst x) (snd x)))
             (walk_files (os_walk w root_dir))
           = map (\<lambda>segs. bucket_dir @ ''/'' @ replace_backslash (foldl os_path_join root_dir segs))
               (files_under n)
       \<and> (back_up w root_dir bucket_name bucket_dir = (r, w')
            \<and> UploadFile b p k \<in> set (emitted w w')
          \<longrightarrow> b = bucket_name
              \<and> (\<exists>segs \<in> set (files_under n).
                    p = replace_backslash (foldl os_path_join root_dir segs)
                    \<and> k = bucket_dir @ ''/'' @ p))
       \<and> (root_dir \<noteq> [] \<and> \<not> endswith root_dir ''/'' \<and> segs \<in> set (files_under n)
            \<and> (\<forall>s \<in> set segs. s \<noteq> [] \<and> CHR ''/'' \<notin> set s)
          \<longrightarrow> foldl os_path_join root_dir segs = root_dir @ ''/'' @ sep_join segs)"
proof -
  from assms have walked: "os_walk w root_dir = walk root_dir n"
    by (simp add: os_walk_def)
  have files: "walk_files (os_walk w root_dir)
      = map (\<lambda>segs. (foldl os_path_join root_dir (butlast segs), last segs)) (files_under n)"
    unfolding walked by (rule walk_files_walk)
  have keys: "map (\<lambda>x. s3_full_path_of bucket_dir (full_path_of (fst x) (snd x)))
             (walk_files (os_walk w root_dir))
           = map (\<lambda>segs. bucket_dir @ ''/'' @ replace_backslash (foldl os_path_join root_dir segs))
               (files_under n)"
    unfolding files
    by (auto simp: s3_full_path_of_def full_path_of_segs dest: files_under_nonempty)
  have uploads: "b = bucket_name
              \<and> (\<exists>segs \<in> set (files_under n).
                    p = replace_backslash (foldl os_path_join root_dir segs)
                    \<and> k = bucket_dir @ ''/'' @ p)"
    if run: "back_up w root_dir bucket_name bucket_dir = (r, w')"
      and up: "UploadFile b p k \<in> set (emitted w w')"
  proof -
    from back_up_run [OF run] obtain es where es: "trace w' = trace w @ es"
      "\<forall>e \<in> set es. walk_event bucket_name bucket_dir (os_walk w root_dir) e
          \<or> (e = Print (BackupNotFound root_dir) \<and> os_walk w root_dir = [] \<and> r = Inr ())"
      by auto
    from es(1) have "emitted w w' = es" by simp
    with up es(2)
    have "walk_event bucket_name bucket_dir (os_walk w root_dir) (UploadFile b p k)"
      by auto
    from walk_event_UploadFile [OF this] obtain x where x: "b = bucket_name"
      "x \<in> set (walk_files (os_walk w root_dir))"
      "p = full_path_of (fst x) (snd x)" "k = s3_full_path_of bucket_dir p"
      by blast
    from x(2) obtain segs where segs: "segs \<in> set (files_under n)"
      "x = (foldl os_path_join root_dir (butlast segs), last segs)"
      unfolding files by auto
    from segs(1) have "segs \<noteq> []" by (rule files_under_nonempty)
    with x segs show ?thesis
      by (intro conjI bexI [of _ segs]) (simp_all add: full_path_of_segs s3_full_path_of_def)
  qed
  have closed: "foldl os_path_join root_dir segs = root_dir @ ''/'' @ sep_join segs"
    if "root_dir \<noteq> []" "\<not> endswith root_dir ''/''" "segs \<in> set (files_under n)"
      "\<forall>s \<in> set segs. s \<noteq> [] \<and> CHR ''/'' \<notin> set s"
    using foldl_join_names [OF that(1,2) files_under_nonempty [OF that(3)] that(4)] .
  from keys uploads closed show ?thesis by blast
qed

text \<open>In the example world the walk of \<^verbatim>\<open>r\<close> with prefix \<^verbatim>\<open>p\<close> gives the keys \<^verbatim>\<open>p/r/a.txt\<close> and \<^verbatim>\<open>p/r/s/b.txt\<close>.\<close>

theorem back_up_keys_witness:
  "stat example_world ''r'' = Some (Dir 0 [(''a.txt'', File 100), (''s'', Dir 0 [(''b.txt'', File 50)])])
   \<and> map (\<lambda>x. s3_full_path_of ''p'' (full_path_of (fst x) (snd x)))
         (walk_files (os_walk example_world ''r''))
       = [''p/r/a.txt'', ''p/r/s/b.txt'']
   \<and> UploadFile ''b'' ''r/s/b.txt'' ''p/r/s/b.txt''
       \<in> set (emitted example_world (snd (back_up example_world ''r'' ''b'' ''p'')))
   \<and> (\<exists>segs \<in> set (files_under
            (Dir 0 [(''a.txt'', File 100), (''s'', Dir 0 [(''b.txt'', File 50)])])).
         ''r/s/b.txt'' = replace_backslash (foldl os_path_join ''r'' segs)
         \<and> ''p/r/s/b.txt'' = ''p'' @ ''/'' @ ''r/s/b.txt'')
   \<and> foldl os_path_join ''r'' [''s'', ''b.txt''] = ''r'' @ ''/'' @ sep_join [''s'', ''b.txt'']"
proof -
  let ?n = "Dir 0 [(''a.txt'', File 100), (''s'', Dir 0 [(''b.txt'', File 50)])]"
  have st: "stat example_world ''r'' = Some ?n"
    by code_simp
  have up: "UploadFile ''b'' ''r/s/b.txt'' ''p/r/s/b.txt''
       \<in> set (emitted example_world (snd (back_up example_world ''r'' ''b'' ''p'')))"
    by code_simp
  have files: "files_under ?n = [[''a.txt''], [''s'', ''b.txt'']]"
    by code_simp
  have names: "''r'' \<noteq> [] \<and> \<not> endswith ''r'' ''/'' \<and> [''s'', ''b.txt''] \<in> set (files_under ?n)
      \<and> (\<forall>s \<in> set [''s'', ''b.txt'']. s \<noteq> [] \<and> CHR ''/'' \<notin> set s)"
    unfolding files by (simp add: endswith_def)
  note inst = back_up_keys [OF st, of "''p''" "''b''" "fst (back_up example_world ''r'' ''b'' ''p'')"
      "snd (back_up example_world ''r'' ''b'' ''p'')" "''b''" "''r/s/b.txt''" "''p/r/s/b.txt''"
      "[''s'', ''b.txt'']"]
  have keys: "map (\<lambda>segs. ''p'' @ ''/'' @ replace_backslash (foldl os_path_join ''r'' segs))
               (files_under ?n) = [''p/r/a.txt'', ''p/r/s/b.txt'']"
    unfolding files by code_simp
  have a: "map (\<lambda>x. s3_full_path_of ''p'' (full_path_of (fst x) (snd x)))
         (walk_files (os_walk example_world ''r'')) = [''p/r/a.txt'', ''p/r/s/b.txt'']"
    using inst [THEN conjunct1] keys by (rule trans)
  have run: "back_up example_world ''r'' ''b'' ''p''
      = (fst (back_up example_world ''r'' ''b'' ''p''), snd (back_up example_world ''r'' ''b'' ''p''))"
    by simp
  note b = inst [THEN conjunct2, THEN conjunct1, rule_format, OF conjI [OF run up], THEN conjunct2]
  note c = inst [THEN conjunct2, THEN conjunct2, rule_format, OF names]
  show ?thesis
    by (rule conjI [OF st conjI [OF a conjI [OF up conjI [OF b c]]]])
qed

text \<open>
  The claim as stated fails: for the file \<^verbatim>\<open>a.txt\<close> under the root \<^verbatim>\<open>r\<close> the stated key is
  \<^verbatim>\<open>p/a.txt\<close>, and \<^verbatim>\<open>back_up\<close> uploads it under \<^verbatim>\<open>p/r/a.txt\<close>.
\<close>

theorem back_up_key_counterexample:
  "os_walk example_world ''r'' = [(''r'', [''s''], [''a.txt'']), (''r/s'', [], [''b.txt''])]
   \<and> s3_full_path_of ''p'' (full_path_of ''r'' ''a.txt'') = ''p/r/a.txt''
   \<and> UploadFile ''b'' ''r/a.txt'' ''p/r/a.txt''
       \<in> set (trace (snd (back_up example_world ''r'' ''b'' ''p'')))
   \<and> s3_full_path_of ''p'' (full_path_of ''r'' ''a.txt'') \<noteq> spec_key ''p'' ''a.txt''"
  by code_simp

section \<open>From a key back to a local path\<close>

text \<open>
  Claim C2, as the code has it. Let the working directory, the prefix and the root be
  made of plain names, and let a file be reached from the root by plain names. Then
  stripping the prefix from the key that \<^verbatim>\<open>back_up\<close> gives the file yields the path that was
  backed up, which starts with the root; and the path to which \<^verbatim>\<open>restore\<close> writes the object
  is the root of the restore joined with that whole path. The two mappings are inverse
  on the path that includes the root, not on the path relative to it.
\<close>

theorem restore_target_of_backup_key:
  assumes "cwd_now = ''/'' @ sep_join cs" "\<forall>c \<in> set cs. plain_name c"
    and "bucket_dir = sep_join xs" "xs \<noteq> []" "\<forall>x \<in> set xs. plain_name x"
    and "root_dir = sep_join rs" "rs \<noteq> []" "\<forall>r \<in> set rs. plain_name r"
    and "\<forall>d \<in> set dirs. plain_name d" "plain_name file_name"
  shows "os_path_relpath cwd_now
           (s3_full_path_of bucket_dir (full_path_of (foldl os_path_join root_dir dirs) file_name))
           bucket_dir
           = Inr (root_dir @ ''/'' @ sep_join (dirs @ [file_name]))
       \<and> target_of cwd_now (Some restore_root) bucket_dir
           (s3_full_path_of bucket_dir (full_path_of (foldl os_path_join root_dir dirs) file_name))
           = Inr (os_path_join restore_root (root_dir @ ''/'' @ sep_join (dirs @ [file_name])))"
proof -
  let ?ps = "dirs @ [file_name]"
  have ps: "?ps \<noteq> []" "\<forall>p \<in> set ?ps. plain_name p"
    using assms(9,10) by auto
  have rends: "root_dir \<noteq> []" "\<not> endswith root_dir ''/''"
    using sep_join_ends [OF assms(7) plain_names_no_slash [OF assms(8)]] assms(6)
    by (simp_all add: endswith_slash)
  have "os_path_join (foldl os_path_join root_dir dirs) file_name = foldl os_path_join root_dir ?ps"
    by simp
  also have "\<dots> = root_dir @ ''/'' @ sep_join ?ps"
    using foldl_join_names [OF rends ps(1)] plain_names_no_slash [OF ps(2)] by blast
  also have "\<dots> = sep_join (rs @ ?ps)"
    using assms(6,7) by (simp add: sep_join_append)
  finally have joined: "os_path_join (foldl os_path_join root_dir dirs) file_name = sep_join (rs @ ?ps)" .
  have qs: "rs @ ?ps \<noteq> []" "\<forall>q \<in> set (rs @ ?ps). plain_name q"
    using assms(8) ps(2) by auto
  have full: "full_path_of (foldl os_path_join root_dir dirs) file_name = sep_join (rs @ ?ps)"
    using joined replace_backslash_plain [OF qs(2)] by (simp add: full_path_of_def)
  have rel: "os_path_relpath cwd_now (s3_full_path_of bucket_dir (sep_join (rs @ ?ps))) bucket_dir
               = Inr (sep_join (rs @ ?ps))"
    using relpath_strips_prefix [OF assms(2,4,5) qs] assms(1,3)
    by (simp add: s3_full_path_of_def)
  have "sep_join (rs @ ?ps) = root_dir @ ''/'' @ sep_join ?ps"
    using assms(6,7) by (simp add: sep_join_append)
  with rel full show ?thesis by (simp add: target_of_def)
qed

text \<open>
  The file \<^verbatim>\<open>r/s/b.txt\<close> is backed up under \<^verbatim>\<open>p/r/s/b.txt\<close>; restoring the prefix \<^verbatim>\<open>p\<close> into
  \<^verbatim>\<open>out\<close> writes \<^verbatim>\<open>out/r/s/b.txt\<close>.
\<close>

theorem restore_target_of_backup_key_witness:
  "os_path_relpath ''/home/u'' (s3_full_path_of ''p'' (full_path_of (foldl os_path_join ''r'' [''s'']) ''b.txt'')) ''p''
     = Inr ''r/s/b.txt''
   \<and> target_of ''/home/u'' (Some ''out'') ''p''
        (s3_full_path_of ''p'' (full_path_of (foldl os_path_join ''r'' [''s'']) ''b.txt''))
     = Inr ''out/r/s/b.txt''"
proof -
  have cwd: "''/home/u'' = ''/'' @ sep_join [''home'', ''u'']" by simp
  have cs: "\<forall>c \<in> set [''home'', ''u'']. plain_name c" by (simp add: plain_name_def)
  have prefix: "''p'' = sep_join [''p'']" "[''p''] \<noteq> []" "\<forall>x \<in> set [''p'']. plain_name x"
    by (simp_all add: plain_name_def)
  have root: "''r'' = sep_join [''r'']" "[''r''] \<noteq> []" "\<forall>r \<in> set [''r'']. plain_name r"
    by (simp_all add: plain_name_def)
  have names: "\<forall>d \<in> set [''s'']. plain_name d" "plain_name ''b.txt''"
    by (simp_all add: plain_name_def)
  have joined: "os_path_join ''out'' (''r'' @ ''/'' @ sep_join ([''s''] @ [''b.txt''])) = ''out/r/s/b.txt''"
    by code_simp
  from restore_target_of_backup_key [OF cwd cs prefix root names, of "''out''"] joined
  show ?thesis by simp
qed

text \<open>
  The claim as stated fails: for the root \<^verbatim>\<open>r\<close>, the relative path \<^verbatim>\<open>a.txt\<close> and the prefix
  \<^verbatim>\<open>p\<close>, mapping the key back with the same root gives \<^verbatim>\<open>r/r/a.txt\<close>, which is neither
  the relative path nor the local path of the file.
\<close>

theorem round_trip_counterexample:
  "s3_full_path_of ''p'' (full_path_of ''r'' ''a.txt'') = ''p/r/a.txt''
   \<and> target_of ''/home/u'' (Some ''r'') ''p'' ''p/r/a.txt'' = Inr ''r/r/a.txt''
   \<and> target_of ''/home/u'' (Some ''r'') ''p'' (s3_full_path_of ''p'' (full_path_of ''r'' ''a.txt''))
        \<noteq> Inr ''a.txt''
   \<and> target_of ''/home/u'' (Some ''r'') ''p'' (s3_full_path_of ''p'' (full_path_of ''r'' ''a.txt''))
        \<noteq> Inr (os_path_join ''r'' ''a.txt'')"
  by code_simp

section \<open>The change check\<close>

text \<open>
  Claim C3, as the code has it. Let the local file have the modification time \<open>T_l\<close>.
  The change check returns true if and only if the metadata lookup raises \<^verbatim>\<open>ClientError\<close>,
  as it does when the store answers with an error or the object is absent, or gives a
  remote time \<open>T_r < T_l\<close>; it returns false if and only if the lookup gives a remote
  time \<open>T_r \<ge> T_l\<close>; and it raises an exception if and only if the lookup raises that
  exception and it is not \<^verbatim>\<open>ClientError\<close>: an error of the lookup of another kind is not
  treated as an absent object.
\<close>

theorem not_up_to_date_iff:
  assumes "os_path_getmtime w current_file_path = Inr T_l"
  shows "(not_up_to_date w current_file_path (bucket_name, key) = Inr True
            \<longleftrightarrow> last_modified w bucket_name key = Inl ClientError
                \<or> (\<exists>T_r. last_modified w bucket_name key = Inr T_r \<and> T_r < T_l))
       \<and> (not_up_to_date w current_file_path (bucket_name, key) = Inr False
            \<longleftrightarrow> (\<exists>T_r. last_modified w bucket_name key = Inr T_r \<and> T_l \<le> T_r))
       \<and> (\<forall>e. not_up_to_date w current_file_path (bucket_name, key) = Inl e
            \<longleftrightarrow> last_modified w bucket_name key = Inl e \<and> e \<noteq> ClientError)"
proof (cases "last_modified w bucket_name key")
  case (Inl x)
  then show ?thesis
    by (cases x) (auto simp: not_up_to_date_def)
next
  case (Inr t)
  with assms show ?thesis
    by (auto simp: not_up_to_date_def)
qed

text \<open>
  In the example world \<^verbatim>\<open>r/a.txt\<close> has the time 100 and \<^verbatim>\<open>r/s/b.txt\<close> the time 50; the
  object \<^verbatim>\<open>p/r/a.txt\<close> is absent from bucket \<^verbatim>\<open>b\<close>; in bucket \<^verbatim>\<open>c\<close> the object
  \<^verbatim>\<open>d/x.txt\<close> has the time 20 and \<^verbatim>\<open>d/y.txt\<close> the time 60. Where the store answers the
  lookup of \<^verbatim>\<open>d/y.txt\<close> with an error, the check answers as for an absent object.
\<close>

theorem not_up_to_date_iff_witness:
  "os_path_getmtime example_world ''r/a.txt'' = Inr 100
   \<and> last_modified example_world ''b'' ''p/r/a.txt'' = Inl ClientError
   \<and> not_up_to_date example_world ''r/a.txt'' (''b'', ''p/r/a.txt'') = Inr True
   \<and> last_modified example_world ''c'' ''d/x.txt'' = Inr 20
   \<and> not_up_to_date example_world ''r/a.txt'' (''c'', ''d/x.txt'') = Inr True
   \<and> os_path_getmtime example_world ''r/s/b.txt'' = Inr 50
   \<and> last_modified example_world ''c'' ''d/y.txt'' = Inr 60
   \<and> not_up_to_date example_world ''r/s/b.txt'' (''c'', ''d/y.txt'') = Inr False
   \<and> last_modified store_error_world ''c'' ''d/y.txt'' = Inl ClientError
   \<and> not_up_to_date store_error_world ''r/s/b.txt'' (''c'', ''d/y.txt'') = Inr True
   \<and> os_path_getmtime unreachable_store_world ''r/s/b.txt'' = Inr 50
   \<and> last_modified unreachable_store_world ''c'' ''d/y.txt'' = Inl EndpointConnectionError
   \<and> not_up_to_date unreachable_store_world ''r/s/b.txt'' (''c'', ''d/y.txt'')
       = Inl EndpointConnectionError"
proof -
  have l: "os_path_getmtime example_world ''r/a.txt'' = Inr 100"
    by code_simp
  have l2: "os_path_getmtime example_world ''r/s/b.txt'' = Inr 50"
    by code_simp
  have l3: "os_path_getmtime store_error_world ''r/s/b.txt'' = Inr 50"
    by code_simp
  have l4: "os_path_getmtime unreachable_store_world ''r/s/b.txt'' = Inr 50"
    by code_simp
  have r1: "last_modified example_world ''b'' ''p/r/a.txt'' = Inl ClientError"
    by code_simp
  have r2: "last_modified example_world ''c'' ''d/x.txt'' = Inr 20"
    by code_simp
  have r3: "last_modified example_world ''c'' ''d/y.txt'' = Inr 60"
    by code_simp
  have r4: "last_modified store_error_world ''c'' ''d/y.txt'' = Inl ClientError"
    by code_simp
  have r5: "last_modified unreachable_store_world ''c'' ''d/y.txt'' = Inl EndpointConnectionError"
    by code_simp
  have c1: "not_up_to_date example_world ''r/a.txt'' (''b'', ''p/r/a.txt'') = Inr True"
    using not_up_to_date_iff [OF l, of "''b''" "''p/r/a.txt''"] r1 by simp
  have c2: "not_up_to_date example_world ''r/a.txt'' (''c'', ''d/x.txt'') = Inr True"
    using not_up_to_date_iff [OF l, of "''c''" "''d/x.txt''"] r2 by simp
  have c3: "not_up_to_date example_world ''r/s/b.txt'' (''c'', ''d/y.txt'') = Inr False"
    using not_up_to_date_iff [OF l2, of "''c''" "''d/y.txt''"] r3 by simp
  have c4: "not_up_to_date store_error_world ''r/s/b.txt'' (''c'', ''d/y.txt'') = Inr True"
    using not_up_to_date_iff [OF l3, of "''c''" "''d/y.txt''"] r4 by simp
  have c5: "not_up_to_date unreachable_store_world ''r/s/b.txt'' (''c'', ''d/y.txt'')
              = Inl EndpointConnectionError"
    using not_up_to_date_iff [OF l4, of "''c''" "''d/y.txt''"] r5 by simp
  show ?thesis
    using l l2 l4 r1 r2 r3 r4 r5 c1 c2 c3 c4 c5 by simp
qed

text \<open>
  The claim as stated fails: where the store is not reached, the lookup for the object
  \<^verbatim>\<open>d/y.txt\<close> raises \<^verbatim>\<open>EndpointConnectionError\<close>, and the change check for the local file
  \<^verbatim>\<open>r/s/b.txt\<close> does not return true, as it does for an absent object: it raises that
  exception.
\<close>

theorem lookup_error_counterexample:
  "os_path_getmtime unreachable_store_world ''r/s/b.txt'' = Inr 50
   \<and> last_modified unreachable_store_world ''c'' ''d/y.txt'' = Inl EndpointConnectionError
   \<and> not_up_to_date unreachable_store_world ''r/s/b.txt'' (''c'', ''d/y.txt'') \<noteq> Inr True
   \<and> not_up_to_date unreachable_store_world ''r/s/b.txt'' (''c'', ''d/y.txt'')
       = Inl EndpointConnectionError"
  by code_simp

text \<open>
  An error of \<^verbatim>\<open>getmtime\<close> after a lookup that succeeded is not caught either.
\<close>

lemma not_up_to_date_raises:
  "last_modified w bucket_name key = Inr t \<Longrightarrow> os_path_getmtime w current_file_path = Inl e \<Longrightarrow>
     not_up_to_date w current_file_path (bucket_name, key) = Inl e"
  by (simp add: not_up_to_date_def)

section \<open>Directory markers\<close>

text \<open>
  Claim C4 does not hold of the code: the test for a trailing slash is made only when
  the directory of the target has just been created. In the example world the bucket
  \<^verbatim>\<open>m\<close> lists the key \<^verbatim>\<open>p/a/\<close> under the prefix \<^verbatim>\<open>p\<close>, and the directory \<^verbatim>\<open>out\<close> exists:
  \<^verbatim>\<open>restore\<close> downloads the marker to the regular file \<^verbatim>\<open>out/a\<close> and reports success.
\<close>

theorem restore_downloads_directory_marker:
  "list_objects [(''p/a/'', 10), (''q/y/z/'', 11)] ''p'' = [''p/a/'']
   \<and> os_path_exists example_world ''out''
   \<and> fst (restore example_world (Some ''out'') ''m'' ''p'') = Inr ()
   \<and> trace (snd (restore example_world (Some ''out'') ''m'' ''p''))
       = [DownloadFile ''m'' ''p/a/'' ''out/a'', Print (RestoreCompleted ''m'' ''out'')]
   \<and> stat (snd (restore example_world (Some ''out'') ''m'' ''p'')) ''out/a'' = Some (File 300)"
  by code_simp

section \<open>Nothing found\<close>

text \<open>
  Claim C5, as the code has it. A root that does not exist, is a regular file, or is a
  directory that cannot be listed makes \<^verbatim>\<open>back_up\<close> report that it does not exist, and
  nothing else happens. A root that is a directory that can be listed never gets that
  report; when no file lies anywhere below it, \<^verbatim>\<open>back_up\<close> prints the directories it
  finds, uploads nothing and returns. Restoring a prefix under which an existing bucket
  lists no key reports that the directory does not exist, and nothing else happens.
\<close>

theorem nothing_found_reports:
  "(stat w root_dir = None \<or> stat w root_dir = Some (File t0)
        \<or> stat w root_dir = Some (NoAccess t1)
      \<longrightarrow> back_up w root_dir bucket_name bucket_dir
            = (Inr (), emit (Print (BackupNotFound root_dir)) w))
   \<and> (stat w root_dir = Some (Dir t es)
      \<longrightarrow> Print (BackupNotFound root_dir)
            \<notin> set (emitted w (snd (back_up w root_dir bucket_name bucket_dir))))
   \<and> (stat w root_dir = Some (Dir t es) \<and> files_under (Dir t es) = []
      \<longrightarrow> back_up w root_dir bucket_name bucket_dir
            = (Inr (), w\<lparr>trace := trace w
                 @ map (\<lambda>x. Print (FoundDirectory (fst x))) (walk root_dir (Dir t es))\<rparr>))
   \<and> (map_of (buckets w) bucket_name = Some objs \<and> list_objects objs bucket_dir = []
      \<longrightarrow> restore w root_dir' bucket_name bucket_dir
            = (Inr (), emit (Print (RestoreNotFound bucket_dir bucket_name)) w))"
proof -
  have missing: "back_up w root_dir bucket_name bucket_dir
            = (Inr (), emit (Print (BackupNotFound root_dir)) w)"
    if "stat w root_dir = None \<or> stat w root_dir = Some (File t0)
        \<or> stat w root_dir = Some (NoAccess t1)"
    using that by (auto simp: back_up_def os_walk_def)
  have present: "Print (BackupNotFound root_dir)
            \<notin> set (emitted w (snd (back_up w root_dir bucket_name bucket_dir)))"
    if dir: "stat w root_dir = Some (Dir t es)"
  proof -
    obtain r w' where run: "back_up w root_dir bucket_name bucket_dir = (r, w')"
      by (cases "back_up w root_dir bucket_name bucket_dir")
    from dir have walked: "os_walk w root_dir \<noteq> []"
      by (simp add: os_walk_def)
    from back_up_run [OF run] obtain evs where evs: "trace w' = trace w @ evs"
      "\<forall>e \<in> set evs. walk_event bucket_name bucket_dir (os_walk w root_dir) e
          \<or> (e = Print (BackupNotFound root_dir) \<and> os_walk w root_dir = [] \<and> r = Inr ())"
      by auto
    have "\<not> walk_event bucket_name bucket_dir (os_walk w root_dir) (Print (BackupNotFound root_dir))"
      by (auto simp: walk_event_def)
    with evs(2) walked have "Print (BackupNotFound root_dir) \<notin> set evs" by blast
    with evs(1) run show ?thesis by simp
  qed
  have empty: "back_up w root_dir bucket_name bucket_dir
            = (Inr (), w\<lparr>trace := trace w
                 @ map (\<lambda>x. Print (FoundDirectory (fst x))) (walk root_dir (Dir t es))\<rparr>)"
    if dir: "stat w root_dir = Some (Dir t es)" and none: "files_under (Dir t es) = []"
  proof -
    from dir have walked: "os_walk w root_dir = walk root_dir (Dir t es)"
      by (simp add: os_walk_def)
    have "\<forall>x \<in> set (walk root_dir (Dir t es)). snd (snd x) = []"
      using walk_no_files [OF none] by blast
    from back_up_dirs_no_files [OF this, of bucket_name bucket_dir False w] walked
    show ?thesis by (simp add: back_up_def)
  qed
  have listing: "restore w root_dir' bucket_name bucket_dir
            = (Inr (), emit (Print (RestoreNotFound bucket_dir bucket_name)) w)"
    if "map_of (buckets w) bucket_name = Some objs" "list_objects objs bucket_dir = []"
    using that by (simp add: restore_def)
  from missing present empty listing show ?thesis by blast
qed

theorem nothing_found_reports_witness:
  "stat example_world ''nowhere'' = None
   \<and> back_up example_world ''nowhere'' ''b'' ''p''
       = (Inr (), emit (Print (BackupNotFound ''nowhere'')) example_world)
   \<and> stat example_world ''e'' = Some (Dir 0 [])
   \<and> Print (BackupNotFound ''e'')
       \<notin> set (emitted example_world (snd (back_up example_world ''e'' ''b'' ''p'')))
   \<and> back_up example_world ''e'' ''b'' ''p''
       = (Inr (), example_world\<lparr>trace := trace example_world @ [Print (FoundDirectory ''e'')]\<rparr>)
   \<and> map_of (buckets example_world) ''b'' = Some []
   \<and> restore example_world (Some ''out'') ''b'' ''p''
       = (Inr (), emit (Print (RestoreNotFound ''p'' ''b'')) example_world)
   \<and> stat locked_world ''locked'' = Some (NoAccess 7)
   \<and> back_up locked_world ''locked'' ''b'' ''p''
       = (Inr (), emit (Print (BackupNotFound ''locked'')) locked_world)"
proof -
  have none: "stat example_world ''nowhere'' = None"
    by code_simp
  have locked: "stat locked_world ''locked'' = Some (NoAccess 7)"
    by code_simp
  have dir: "stat example_world ''e'' = Some (Dir 0 [])"
    by code_simp
  have nofiles: "files_under (Dir 0 []) = []"
    by simp
  have bucket: "map_of (buckets example_world) ''b'' = Some []"
    by (simp add: example_world_def)
  have listing: "list_objects [] ''p'' = []"
    by (simp add: list_objects_def)
  note inst1 = nothing_found_reports [of example_world "''nowhere''" 0 0 "''b''" "''p''" 0 "[]"
      "[]" "Some ''out''"]
  note inst2 = nothing_found_reports [of example_world "''e''" 0 0 "''b''" "''p''" 0 "[]"
      "[]" "Some ''out''"]
  note inst3 = nothing_found_reports [of locked_world "''locked''" 0 7 "''b''" "''p''" 0 "[]"
      "[]" "Some ''out''"]
  note a = inst1 [THEN conjunct1, rule_format, OF disjI1 [OF none]]
  note b = inst2 [THEN conjunct2, THEN conjunct1, rule_format, OF dir]
  have c: "back_up example_world ''e'' ''b'' ''p''
       = (Inr (), example_world\<lparr>trace := trace example_world @ [Print (FoundDirectory ''e'')]\<rparr>)"
    using inst2 [THEN conjunct2, THEN conjunct2, THEN conjunct1, rule_format,
        OF conjI [OF dir nofiles]] by simp
  note d = inst2 [THEN conjunct2, THEN conjunct2, THEN conjunct2, rule_format,
      OF conjI [OF bucket listing]]
  note e = inst3 [THEN conjunct1, rule_format, OF disjI2 [OF disjI2 [OF locked]]]
  show ?thesis
    by (rule conjI [OF none conjI [OF a conjI [OF dir conjI [OF b conjI [OF c conjI [OF bucket
          conjI [OF d conjI [OF locked e]]]]]]]])
qed

text \<open>
  The claim as stated fails: \<^verbatim>\<open>e\<close> is an existing directory without files that can be
  listed, and backing it up prints the directory found and no report that it does not
  exist.
\<close>

theorem empty_root_counterexample:
  "stat example_world ''e'' = Some (Dir 0 [])
   \<and> fst (back_up example_world ''e'' ''b'' ''p'') = Inr ()
   \<and> trace (snd (back_up example_world ''e'' ''b'' ''p'')) = [Print (FoundDirectory ''e'')]
   \<and> Print (BackupNotFound ''e'') \<notin> set (trace (snd (back_up example_world ''e'' ''b'' ''p'')))"
  by code_simp

section \<open>Restoring from a bucket that does not exist\<close>

text \<open>
  Claim C6. If the bucket is not among the account's buckets, \<^verbatim>\<open>restore\<close> prints that the
  bucket is invalid and returns; nothing else happens: the file system and the store
  are as before, so no directory is created and no object is downloaded.
\<close>

theorem restore_missing_bucket:
  assumes "map_of (buckets w) bucket_name = None"
  shows "restore w root_dir bucket_name bucket_dir
           = (Inr (), emit (Print (InvalidBucket bucket_name)) w)
       \<and> emitted w (snd (restore w root_dir bucket_name bucket_dir))
           = [Print (InvalidBucket bucket_name)]
       \<and> fs_root (snd (restore w root_dir bucket_name bucket_dir)) = fs_root w
       \<and> buckets (snd (restore w root_dir bucket_name bucket_dir)) = buckets w"
  using assms by (simp add: restore_def)

theorem restore_missing_bucket_witness:
  "map_of (buckets example_world) ''nowhere'' = None
   \<and> restore example_world (Some ''out'') ''nowhere'' ''p''
       = (Inr (), emit (Print (InvalidBucket ''nowhere'')) example_world)
   \<and> fs_root (snd (restore example_world (Some ''out'') ''nowhere'' ''p'')) = example_fs"
proof -
  have h: "map_of (buckets example_world) ''nowhere'' = None"
    by (simp add: example_world_def)
  show ?thesis
    using h restore_missing_bucket [OF h, of "Some ''out''" "''p''"]
    by (simp add: example_world_def)
qed

section \<open>A transfer that fails\<close>

text \<open>
  Claim C7, as the code has it. When an upload fails during \<^verbatim>\<open>back_up\<close>, or a download
  during \<^verbatim>\<open>restore\<close>, the function raises at once: the failed transfer is the last event of
  the run, so no later item is attempted and no report is printed.
\<close>

theorem transfer_failure_aborts:
  "(back_up w root_dir bucket_name bucket_dir = (r, w')
      \<and> UploadFailed b p k \<in> set (emitted w w')
    \<longrightarrow> (\<exists>x. r = Inl x) \<and> last (emitted w w') = UploadFailed b p k)
   \<and> (restore w root_dir' bucket_name bucket_dir = (r2, w2)
      \<and> DownloadFailed b2 k2 p2 \<in> set (emitted w w2)
    \<longrightarrow> (\<exists>x. r2 = Inl x) \<and> last (emitted w w2) = DownloadFailed b2 k2 p2)"
proof -
  have backup: "(\<exists>x. r = Inl x) \<and> last (emitted w w') = UploadFailed b p k"
    if run: "back_up w root_dir bucket_name bucket_dir = (r, w')"
      and failed: "UploadFailed b p k \<in> set (emitted w w')"
  proof -
    from back_up_run [OF run] obtain es where es: "trace w' = trace w @ es"
      "\<forall>e \<in> set es. is_failed e \<longrightarrow> (\<exists>x. r = Inl x) \<and> last es = e"
      by auto
    from es(1) have "emitted w w' = es" by simp
    with failed es(2) show ?thesis by auto
  qed
  have restore: "(\<exists>x. r2 = Inl x) \<and> last (emitted w w2) = DownloadFailed b2 k2 p2"
    if run: "restore w root_dir' bucket_name bucket_dir = (r2, w2)"
      and failed: "DownloadFailed b2 k2 p2 \<in> set (emitted w w2)"
  proof -
    from restore_run [OF run] obtain es where es: "trace w2 = trace w @ es"
      "\<forall>e \<in> set es. is_failed e \<longrightarrow> (\<exists>x. r2 = Inl x) \<and> last es = e"
      by auto
    from es(1) have "emitted w w2 = es" by simp
    with failed es(2) show ?thesis by auto
  qed
  from backup restore show ?thesis by blast
qed

theorem transfer_failure_aborts_witness:
  "UploadFailed ''b'' ''r/a.txt'' ''p/r/a.txt''
     \<in> set (emitted failing_upload_world (snd (back_up failing_upload_world ''r'' ''b'' ''p'')))
   \<and> (\<exists>x. fst (back_up failing_upload_world ''r'' ''b'' ''p'') = Inl x)
   \<and> last (emitted failing_upload_world (snd (back_up failing_upload_world ''r'' ''b'' ''p'')))
       = UploadFailed ''b'' ''r/a.txt'' ''p/r/a.txt''
   \<and> DownloadFailed ''c'' ''d/y.txt'' ''out/y.txt''
     \<in> set (emitted failing_download_world
              (snd (restore failing_download_world (Some ''out'') ''c'' ''d'')))
   \<and> (\<exists>x. fst (restore failing_download_world (Some ''out'') ''c'' ''d'') = Inl x)
   \<and> last (emitted failing_download_world
              (snd (restore failing_download_world (Some ''out'') ''c'' ''d'')))
       = DownloadFailed ''c'' ''d/y.txt'' ''out/y.txt''"
proof -
  let ?b = "back_up failing_upload_world ''r'' ''b'' ''p''"
  let ?r = "restore failing_download_world (Some ''out'') ''c'' ''d''"
  have run1: "?b = (fst ?b, snd ?b)" by simp
  have failed1: "UploadFailed ''b'' ''r/a.txt'' ''p/r/a.txt''
      \<in> set (emitted failing_upload_world (snd ?b))"
    by code_simp
  have run2: "?r = (fst ?r, snd ?r)" by simp
  have failed2: "DownloadFailed ''c'' ''d/y.txt'' ''out/y.txt''
      \<in> set (emitted failing_download_world (snd ?r))"
    by code_simp
  note a = transfer_failure_aborts [where w = failing_upload_world and root_dir = "''r''"
      and bucket_name = "''b''" and bucket_dir = "''p''" and r = "fst ?b" and w' = "snd ?b"
      and b = "''b''" and p = "''r/a.txt''" and k = "''p/r/a.txt''",
      THEN conjunct1, rule_format, OF conjI [OF run1 failed1]]
  note b = transfer_failure_aborts [where w = failing_download_world
      and root_dir' = "Some ''out''"
      and bucket_name = "''c''" and bucket_dir = "''d''" and ?r2.0 = "fst ?r" and ?w2.0 = "snd ?r"
      and ?b2.0 = "''c''" and ?k2.0 = "''d/y.txt''" and ?p2.0 = "''out/y.txt''",
      THEN conjunct2, rule_format, OF conjI [OF run2 failed2]]
  show ?thesis
    by (rule conjI [OF failed1 conjI [OF a [THEN conjunct1] conjI [OF a [THEN conjunct2]
          conjI [OF failed2 conjI [OF b [THEN conjunct1] b [THEN conjunct2]]]]]])
qed

text \<open>
  The claim as stated fails: when the upload of \<^verbatim>\<open>r/a.txt\<close> fails, \<^verbatim>\<open>back_up\<close> raises and the
  other file of the walk, \<^verbatim>\<open>r/s/b.txt\<close>, is never attempted.
\<close>

theorem transfer_failure_counterexample:
  "os_walk failing_upload_world ''r'' = [(''r'', [''s''], [''a.txt'']), (''r/s'', [], [''b.txt''])]
   \<and> fst (back_up failing_upload_world ''r'' ''b'' ''p'') = Inl S3UploadFailedError
   \<and> trace (snd (back_up failing_upload_world ''r'' ''b'' ''p''))
       = [Print (FoundDirectory ''r''), Print (Uploading ''a.txt''),
          UploadFailed ''b'' ''r/a.txt'' ''p/r/a.txt'']
   \<and> Print (Uploading ''b.txt'') \<notin> set (trace (snd (back_up failing_upload_world ''r'' ''b'' ''p'')))
   \<and> map_of (buckets (snd (back_up failing_upload_world ''r'' ''b'' ''p''))) ''b'' = Some []"
  by code_simp

section \<open>Backing up twice\<close>

text \<open>
  Claim C8, as the code has it. Let a first \<^verbatim>\<open>back_up\<close> return, and let, for every file of
  the walk, the metadata lookup of its key not fail and the store's time for an upload
  of the key be no earlier than the file's modification time. Then a second \<^verbatim>\<open>back_up\<close>
  over the same root returns, changes no bucket and only prints: the change check
  answers \<^verbatim>\<open>False\<close> for every file and nothing is uploaded.
\<close>

theorem second_back_up_uploads_nothing:
  assumes first: "back_up w root_dir bucket_name bucket_dir = (Inr (), w1)"
    and clock: "\<forall>x \<in> set (walk_files (os_walk w root_dir)). clock_ok w bucket_dir x"
  shows "\<exists>w2. back_up w1 root_dir bucket_name bucket_dir = (Inr (), w2)
           \<and> buckets w2 = buckets w1
           \<and> (\<forall>e \<in> set (emitted w1 w2). \<exists>m. e = Print m)
           \<and> (\<forall>x \<in> set (walk_files (os_walk w1 root_dir)).
                 up_to_date w1 bucket_name bucket_dir x)"
proof -
  let ?walked = "os_walk w root_dir"
  obtain r0 w0 where dirs: "back_up_dirs bucket_name bucket_dir ?walked False w = (r0, w0)"
    by (cases "back_up_dirs bucket_name bucket_dir ?walked False w")
  with first obtain s0 where r0: "r0 = Inr s0"
    and w1: "w1 = w0 \<or> w1 = emit (Print (BackupNotFound root_dir)) w0"
    by (cases r0) (auto simp: back_up_def split: if_splits)
  from back_up_dirs_first_run [OF dirs [unfolded r0] clock]
  have "\<forall>x \<in> set (walk_files ?walked). up_to_date w0 bucket_name bucket_dir x" by simp
  with w1 have utd: "\<forall>x \<in> set (walk_files ?walked). up_to_date w1 bucket_name bucket_dir x"
    by auto
  from back_up_run [OF first] have "same_host w w1" by auto
  then have walk: "os_walk w1 root_dir = ?walked" by (rule os_walk_same_host)
  let ?w2 = "w1\<lparr>trace := trace w1 @ concat (map unchanged_prints ?walked)\<rparr>"
  from back_up_dirs_second_run [OF utd, of False]
  have second: "back_up_dirs bucket_name bucket_dir ?walked False w1 = (Inr (?walked \<noteq> []), ?w2)"
    by simp
  have prints: "\<forall>e \<in> set (concat (map unchanged_prints ?walked)). \<exists>m. e = Print m"
    by (auto simp: unchanged_prints_def)
  show ?thesis
  proof (cases "?walked = []")
    case True
    with second walk have "back_up w1 root_dir bucket_name bucket_dir
        = (Inr (), emit (Print (BackupNotFound root_dir)) ?w2)"
      by (simp add: back_up_def)
    moreover have "trace (emit (Print (BackupNotFound root_dir)) ?w2)
        = trace w1 @ [Print (BackupNotFound root_dir)]"
      using True by simp
    ultimately show ?thesis
      using utd walk by (intro exI [of _ "emit (Print (BackupNotFound root_dir)) ?w2"]) simp
  next
    case False
    with second walk have "back_up w1 root_dir bucket_name bucket_dir = (Inr (), ?w2)"
      by (simp add: back_up_def)
    moreover have "emitted w1 ?w2 = concat (map unchanged_prints ?walked)"
      by (simp add: emitted_def)
    ultimately show ?thesis
      using utd walk prints by (intro exI [of _ ?w2]) simp
  qed
qed

theorem second_back_up_uploads_nothing_witness:
  "fst (back_up example_world ''r'' ''b'' ''p'') = Inr ()
   \<and> walk_files (os_walk example_world ''r'') = [(''r'', ''a.txt''), (''r/s'', ''b.txt'')]
   \<and> clock_ok example_world ''p'' (''r'', ''a.txt'')
   \<and> clock_ok example_world ''p'' (''r/s'', ''b.txt'')
   \<and> fst (back_up (snd (back_up example_world ''r'' ''b'' ''p'')) ''r'' ''b'' ''p'') = Inr ()
   \<and> buckets (snd (back_up (snd (back_up example_world ''r'' ''b'' ''p'')) ''r'' ''b'' ''p''))
       = buckets (snd (back_up example_world ''r'' ''b'' ''p''))
   \<and> up_to_date (snd (back_up example_world ''r'' ''b'' ''p'')) ''b'' ''p'' (''r'', ''a.txt'')"
proof -
  let ?b = "back_up example_world ''r'' ''b'' ''p''"
  have ok: "fst ?b = Inr ()" by code_simp
  then have first: "?b = (Inr (), snd ?b)" by (metis prod.collapse)
  have files: "walk_files (os_walk example_world ''r'') = [(''r'', ''a.txt''), (''r/s'', ''b.txt'')]"
    by code_simp
  have a: "clock_ok example_world ''p'' (''r'', ''a.txt'')"
    by code_simp
  have b: "clock_ok example_world ''p'' (''r/s'', ''b.txt'')"
    by code_simp
  from files a b
  have clock: "\<forall>x \<in> set (walk_files (os_walk example_world ''r'')). clock_ok example_world ''p'' x"
    by simp
  from second_back_up_uploads_nothing [OF first clock] obtain w2 where w2:
    "back_up (snd ?b) ''r'' ''b'' ''p'' = (Inr (), w2)" "buckets w2 = buckets (snd ?b)"
    "\<forall>x \<in> set (walk_files (os_walk (snd ?b) ''r'')). up_to_date (snd ?b) ''b'' ''p'' x"
    by blast
  have same: "os_walk (snd ?b) ''r'' = os_walk example_world ''r''"
    using back_up_run [OF first] by (auto intro: os_walk_same_host)
  from w2(3) have c: "up_to_date (snd ?b) ''b'' ''p'' (''r'', ''a.txt'')"
    unfolding same files by simp
  from w2(1,2) have d: "fst (back_up (snd ?b) ''r'' ''b'' ''p'') = Inr ()"
    "buckets (snd (back_up (snd ?b) ''r'' ''b'' ''p'')) = buckets (snd ?b)"
    by simp_all
  show ?thesis
    by (rule conjI [OF ok conjI [OF files conjI [OF a conjI [OF b conjI [OF d(1) conjI [OF d(2) c]]]]]])
qed

text \<open>
  The claim as stated fails: where the store stamps uploads with the time 50 and
  \<^verbatim>\<open>r/a.txt\<close> has the time 100, the second run uploads \<^verbatim>\<open>r/a.txt\<close> again.
\<close>

theorem second_back_up_counterexample:
  "fst (back_up lagging_clock_world ''r'' ''b'' ''p'') = Inr ()
   \<and> os_path_getmtime lagging_clock_world ''r/a.txt'' = Inr 100
   \<and> map_of (buckets (snd (back_up lagging_clock_world ''r'' ''b'' ''p''))) ''b''
       = Some [(''p/r/a.txt'', 50), (''p/r/s/b.txt'', 50)]
   \<and> not_up_to_date (snd (back_up lagging_clock_world ''r'' ''b'' ''p'')) ''r/a.txt''
        (''b'', ''p/r/a.txt'') = Inr True
   \<and> emitted (snd (back_up lagging_clock_world ''r'' ''b'' ''p''))
        (snd (back_up (snd (back_up lagging_clock_world ''r'' ''b'' ''p'')) ''r'' ''b'' ''p''))
       = [Print (FoundDirectory ''r''), Print (Uploading ''a.txt''),
          UploadFile ''b'' ''r/a.txt'' ''p/r/a.txt'', Print (Uploaded ''a.txt''),
          Print (FoundDirectory ''r/s''), Print (Uploading ''b.txt''), Print (UpToDate ''b.txt'')]"
  by code_simp

section \<open>Too few arguments\<close>

text \<open>
  Claim C9. With fewer than three arguments \<^verbatim>\<open>main\<close> prints the argument-count message
  and returns: that message is the only event, so no client and no session is created
  and there is no backup, restore or bucket operation; the world is otherwise unchanged.
\<close>

theorem main_too_few_arguments:
  assumes "length argv < 3"
  shows "main w argv = w\<lparr>trace := trace w @ [Print BadArgumentCount]\<rparr>
       \<and> emitted w (main w argv) = [Print BadArgumentCount]"
  using assms by (simp add: main_def emit_def emitted_def)

theorem main_too_few_arguments_witness:
  "length [''backup'', ''r''] < 3
   \<and> trace (main example_world [''backup'', ''r'']) = [Print BadArgumentCount]
   \<and> buckets (main example_world [''backup'', ''r'']) = buckets example_world"
  using main_too_few_arguments [of "[''backup'', ''r'']" example_world]
  by (simp add: example_world_def)

section \<open>What \<^verbatim>\<open>restore\<close> reports\<close>

lemma is_download_iff: "is_download e \<longleftrightarrow> (\<exists>b k p. e = DownloadFile b k p)"
  by (cases e) simp_all

text \<open>
  Claim C10, as the code has it. Whenever \<^verbatim>\<open>restore\<close> returns, it has reported success if
  and only if at least one download completed, and it has reported that the directory
  does not exist if and only if the bucket exists and no download completed. A listing
  that consists of directory markers each of which finds the directory of its target
  missing when it is reached makes \<^verbatim>\<open>restore\<close> create those directories, download
  nothing and report that the directory does not exist.
\<close>

theorem restore_success_report:
  "(restore w (Some root_dir) bucket_name bucket_dir = (Inr (), w')
      \<longrightarrow> (Print (RestoreCompleted bucket_name root_dir) \<in> set (emitted w w')
              \<longleftrightarrow> (\<exists>b k p. DownloadFile b k p \<in> set (emitted w w')))
          \<and> (Print (RestoreNotFound bucket_dir bucket_name) \<in> set (emitted w w')
              \<longleftrightarrow> map_of (buckets w) bucket_name \<noteq> None
                  \<and> \<not> (\<exists>b k p. DownloadFile b k p \<in> set (emitted w w'))))
   \<and> (map_of (buckets w) bucket_name = Some objs
       \<and> marker_dirs w (Some root_dir) bucket_dir (list_objects objs bucket_dir) = Some dirs
      \<longrightarrow> (\<exists>w'. restore w (Some root_dir) bucket_name bucket_dir = (Inr (), w')
               \<and> emitted w w' = map MakeDirs dirs @ [Print (RestoreNotFound bucket_dir bucket_name)]
               \<and> length dirs = length (list_objects objs bucket_dir)
               \<and> (\<forall>d \<in> set dirs. os_path_exists w' d)))"
proof -
  have report: "(Print (RestoreCompleted bucket_name root_dir) \<in> set (emitted w w')
              \<longleftrightarrow> (\<exists>b k p. DownloadFile b k p \<in> set (emitted w w')))
          \<and> (Print (RestoreNotFound bucket_dir bucket_name) \<in> set (emitted w w')
              \<longleftrightarrow> map_of (buckets w) bucket_name \<noteq> None
                  \<and> \<not> (\<exists>b k p. DownloadFile b k p \<in> set (emitted w w')))"
    if run: "restore w (Some root_dir) bucket_name bucket_dir = (Inr (), w')"
  proof -
    from restore_run [OF run] obtain es where es: "trace w' = trace w @ es"
      "\<forall>root. Print (RestoreCompleted bucket_name root) \<in> set es
                \<longleftrightarrow> Some root_dir = Some root \<and> (\<exists>e \<in> set es. is_download e)"
      "Print (RestoreNotFound bucket_dir bucket_name) \<in> set es
                \<longleftrightarrow> map_of (buckets w) bucket_name \<noteq> None \<and> \<not> (\<exists>e \<in> set es. is_download e)"
      by auto
    from es(1) have em: "emitted w w' = es" by simp
    have dl: "(\<exists>e \<in> set es. is_download e) \<longleftrightarrow> (\<exists>b k p. DownloadFile b k p \<in> set es)"
      by (auto simp: is_download_iff)
    from es(2) [rule_format, of root_dir] es(3) show ?thesis
      unfolding em dl by simp
  qed
  have markers: "\<exists>w'. restore w (Some root_dir) bucket_name bucket_dir = (Inr (), w')
               \<and> emitted w w' = map MakeDirs dirs @ [Print (RestoreNotFound bucket_dir bucket_name)]
               \<and> length dirs = length (list_objects objs bucket_dir)
               \<and> (\<forall>d \<in> set dirs. os_path_exists w' d)"
    if bucket: "map_of (buckets w) bucket_name = Some objs"
      and only: "marker_dirs w (Some root_dir) bucket_dir (list_objects objs bucket_dir) = Some dirs"
  proof -
    from marker_dirs_run [OF only, of bucket_name False] obtain w1 where w1:
      "restore_objects (Some root_dir) bucket_name bucket_dir (list_objects objs bucket_dir) False w
         = (Inr False, w1)"
      "trace w1 = trace w @ map MakeDirs dirs"
      "length dirs = length (list_objects objs bucket_dir)"
      "\<forall>d \<in> set dirs. os_path_exists w1 d"
      by blast
    let ?w' = "emit (Print (RestoreNotFound bucket_dir bucket_name)) w1"
    from bucket w1(1) have "restore w (Some root_dir) bucket_name bucket_dir = (Inr (), ?w')"
      by (simp add: restore_def)
    moreover from w1(2) have "trace ?w' = trace w @ map MakeDirs dirs
        @ [Print (RestoreNotFound bucket_dir bucket_name)]"
      by simp
    then have "emitted w ?w' = map MakeDirs dirs @ [Print (RestoreNotFound bucket_dir bucket_name)]"
      by (rule emitted_append)
    moreover from w1(4) have "\<forall>d \<in> set dirs. os_path_exists ?w' d"
      by (simp add: os_path_exists_def emit_def)
    ultimately show ?thesis using w1(3) by blast
  qed
  from report markers show ?thesis by blast
qed

theorem restore_success_report_witness:
  "fst (restore example_world (Some ''out'') ''c'' ''d'') = Inr ()
   \<and> Print (RestoreCompleted ''c'' ''out'')
       \<in> set (emitted example_world (snd (restore example_world (Some ''out'') ''c'' ''d'')))
   \<and> (\<exists>b k p. DownloadFile b k p
       \<in> set (emitted example_world (snd (restore example_world (Some ''out'') ''c'' ''d''))))
   \<and> marker_dirs example_world (Some ''new'') ''q''
        (list_objects [(''p/a/'', 10), (''q/y/z/'', 11)] ''q'') = Some [''new/y'']
   \<and> (\<exists>w'. restore example_world (Some ''new'') ''m'' ''q'' = (Inr (), w')
          \<and> emitted example_world w' = [MakeDirs ''new/y'', Print (RestoreNotFound ''q'' ''m'')]
          \<and> os_path_exists w' ''new/y'')"
proof -
  let ?r = "restore example_world (Some ''out'') ''c'' ''d''"
  have ok: "fst ?r = Inr ()" by code_simp
  then have run: "?r = (Inr (), snd ?r)" by (metis prod.collapse)
  have completed: "Print (RestoreCompleted ''c'' ''out'') \<in> set (emitted example_world (snd ?r))"
    by code_simp
  note a = restore_success_report [where w = example_world and root_dir = "''out''"
      and bucket_name = "''c''" and bucket_dir = "''d''" and w' = "snd ?r",
      THEN conjunct1, rule_format, OF run, THEN conjunct1, THEN iffD1, OF completed]
  have bucket: "map_of (buckets example_world) ''m'' = Some [(''p/a/'', 10), (''q/y/z/'', 11)]"
    by (simp add: example_world_def)
  have only: "marker_dirs example_world (Some ''new'') ''q''
        (list_objects [(''p/a/'', 10), (''q/y/z/'', 11)] ''q'') = Some [''new/y'']"
    by code_simp
  have b: "\<exists>w'. restore example_world (Some ''new'') ''m'' ''q'' = (Inr (), w')
          \<and> emitted example_world w' = [MakeDirs ''new/y'', Print (RestoreNotFound ''q'' ''m'')]
          \<and> os_path_exists w' ''new/y''"
    using restore_success_report [where w = example_world and root_dir = "''new''"
      and bucket_name = "''m''" and bucket_dir = "''q''"
      and objs = "[(''p/a/'', 10), (''q/y/z/'', 11)]" and dirs = "[''new/y'']",
      THEN conjunct2, rule_format, OF conjI [OF bucket only]]
    by auto
  show ?thesis
    by (rule conjI [OF ok conjI [OF completed conjI [OF a conjI [OF only b]]]])
qed

text \<open>
  The claim as stated fails: when the download of \<^verbatim>\<open>d/x.txt\<close> completes and that of
  \<^verbatim>\<open>d/y.txt\<close> fails, \<^verbatim>\<open>restore\<close> raises and reports nothing, although one download
  completed.
\<close>

theorem restore_success_counterexample:
  "fst (restore failing_download_world (Some ''out'') ''c'' ''d'') = Inl ClientError
   \<and> trace (snd (restore failing_download_world (Some ''out'') ''c'' ''d''))
       = [DownloadFile ''c'' ''d/x.txt'' ''out/x.txt'',
          DownloadFailed ''c'' ''d/y.txt'' ''out/y.txt'']
   \<and> stat (snd (restore failing_download_world (Some ''out'') ''c'' ''d'')) ''out/x.txt''
       = Some (File 300)
   \<and> Print (RestoreCompleted ''c'' ''out'')
       \<notin> set (trace (snd (restore failing_download_world (Some ''out'') ''c'' ''d'')))"
  by code_simp

end
